theory Spec2Isabelle
  imports Complex_Main
begin

section \<open>Numbers and errors\<close>

text \<open>
  The program is \<^verbatim>\<open>final_submission.py\<close>: an ant colony optimisation for the
  travelling salesman problem, on numpy arrays. A numpy \<^verbatim>\<open>float64\<close> is modelled as an
  exact rational number or one of the three special values of IEEE arithmetic. The
  special values are part of the model because numpy does not raise on a division by
  zero: it returns an infinity or a NaN (with a warning), and every comparison with a
  NaN is false. Rounding error, overflow to infinity and the sign of zero are not
  modelled. Python's own \<^verbatim>\<open>int / int\<close> does raise \<^verbatim>\<open>ZeroDivisionError\<close>.
\<close>

datatype npfloat = Fin rat | PInf | NInf | NaN

datatype error = ZeroDivisionError | IndexError | ValueError

type_synonym 'a matrix = "'a list list"

fun np_add :: "npfloat \<Rightarrow> npfloat \<Rightarrow> npfloat" where
  "np_add (Fin a) (Fin b) = Fin (a + b)"
| "np_add NaN y = NaN"
| "np_add x NaN = NaN"
| "np_add PInf NInf = NaN"
| "np_add NInf PInf = NaN"
| "np_add PInf y = PInf"
| "np_add x PInf = PInf"
| "np_add NInf y = NInf"
| "np_add x NInf = NInf"

text \<open>The sign of a value that is not a NaN: \<open>-1\<close>, \<open>0\<close> or \<open>1\<close>.\<close>

fun np_sign :: "npfloat \<Rightarrow> int" where
  "np_sign (Fin a) = (if a = 0 then 0 else if 0 < a then 1 else -1)"
| "np_sign PInf = 1"
| "np_sign NInf = -1"
| "np_sign NaN = 0"

fun np_mul :: "npfloat \<Rightarrow> npfloat \<Rightarrow> npfloat" where
  "np_mul (Fin a) (Fin b) = Fin (a * b)"
| "np_mul NaN y = NaN"
| "np_mul x NaN = NaN"
| "np_mul x y =
     (if np_sign x = 0 \<or> np_sign y = 0 then NaN
      else if np_sign x = np_sign y then PInf else NInf)"

text \<open>
  Division of numpy floats: \<open>0 / 0\<close> and \<open>inf / inf\<close> are NaN, a nonzero number over
  zero is an infinity of its sign, a finite number over an infinity is zero.
\<close>

fun np_div :: "npfloat \<Rightarrow> npfloat \<Rightarrow> npfloat" where
  "np_div NaN y = NaN"
| "np_div x NaN = NaN"
| "np_div (Fin a) (Fin b) =
     (if b = 0 then (if a = 0 then NaN else if 0 < a then PInf else NInf)
      else Fin (a / b))"
| "np_div (Fin a) y = Fin 0"
| "np_div x (Fin b) =
     (if (np_sign x = 1) = (0 \<le> b) then PInf else NInf)"
| "np_div x y = NaN"

text \<open>\<^verbatim>\<open>x ** k\<close> for a natural exponent; \<^verbatim>\<open>x ** 0\<close> is \<open>1\<close> for every \<open>x\<close>.\<close>

primrec np_pow :: "npfloat \<Rightarrow> nat \<Rightarrow> npfloat" where
  "np_pow x 0 = Fin 1"
| "np_pow x (Suc k) = np_mul x (np_pow x k)"

text \<open>\<^verbatim>\<open>x >= y\<close>: false as soon as one side is a NaN.\<close>

fun np_ge :: "npfloat \<Rightarrow> npfloat \<Rightarrow> bool" where
  "np_ge NaN y = False"
| "np_ge x NaN = False"
| "np_ge (Fin a) (Fin b) = (b \<le> a)"
| "np_ge PInf y = True"
| "np_ge x NInf = True"
| "np_ge x PInf = False"
| "np_ge NInf y = False"

text \<open>
  \<^verbatim>\<open>round(x)\<close> of Python 3 rounds to the nearest integer, a tie to the even one;
  \<^verbatim>\<open>round(x, 4)\<close> does the same at the fourth decimal place, and leaves an infinity or
  a NaN as it is.
\<close>

definition py_round :: "rat \<Rightarrow> int" where
  "py_round x =
     (let f = \<lfloor>x\<rfloor>; r = x - of_int f in
      if r < 1 / 2 then f
      else if 1 / 2 < r then f + 1
      else if even f then f else f + 1)"

definition round4 :: "rat \<Rightarrow> rat" where
  "round4 x = of_int (py_round (x * 10000)) / 10000"

fun np_round4 :: "npfloat \<Rightarrow> npfloat" where
  "np_round4 (Fin a) = Fin (round4 a)"
| "np_round4 x = x"

section \<open>Configuration\<close>

text \<open>The module's global constants, lines 22 to 29.\<close>

record config =
  RHO :: rat
  Q :: int
  ALPHA :: nat
  BETA :: nat
  K :: nat
  ITER :: nat
  ELITIST :: bool
  ELITISTFACTOR :: rat

definition source_config :: config where
  "source_config =
     \<lparr>RHO = 1 / 2, Q = 5, ALPHA = 1, BETA = 3, K = 50, ITER = 200,
      ELITIST = False, ELITISTFACTOR = 1 / 5\<rparr>"

section \<open>calculate_heuristic\<close>

text \<open>
  \<^verbatim>\<open>m[i][j]\<close> read from a matrix raises \<^verbatim>\<open>IndexError\<close> out of range; the indices of
  the program are never negative.
\<close>

definition lookup2 :: "'a matrix \<Rightarrow> nat \<Rightarrow> nat \<Rightarrow> error + 'a" where
  "lookup2 m i j =
     (if i < length m then
        (if j < length (m ! i) then Inr (m ! i ! j) else Inl IndexError)
      else Inl IndexError)"

definition store2 :: "'a matrix \<Rightarrow> nat \<Rightarrow> nat \<Rightarrow> 'a \<Rightarrow> 'a matrix" where
  "store2 m i j v = m[i := (m ! i)[j := v]]"

text \<open>
  Lines 80 to 85. The distance matrix holds integers (\<^verbatim>\<open>xml_decoder\<close> returns
  \<^verbatim>\<open>edges.astype(int)\<close>), so \<^verbatim>\<open>Q / d[i][j]\<close> is a numpy division: it does not raise.
\<close>

fun heuristic_row ::
  "config \<Rightarrow> int matrix \<Rightarrow> nat \<Rightarrow> nat list \<Rightarrow> npfloat matrix \<Rightarrow> error + npfloat matrix" where
  "heuristic_row cfg d i [] hm = Inr hm"
| "heuristic_row cfg d i (j # js) hm =
     (if i \<noteq> j then
        (case lookup2 d i j of
           Inl e \<Rightarrow> Inl e
         | Inr dij \<Rightarrow>
             heuristic_row cfg d i js
               (store2 hm i j (np_round4 (np_div (Fin (of_int (Q cfg))) (Fin (of_int dij))))))
      else heuristic_row cfg d i js (store2 hm i j (Fin 0)))"

fun heuristic_rows ::
  "config \<Rightarrow> int matrix \<Rightarrow> nat \<Rightarrow> nat list \<Rightarrow> npfloat matrix \<Rightarrow> error + npfloat matrix" where
  "heuristic_rows cfg d n [] hm = Inr hm"
| "heuristic_rows cfg d n (i # is) hm =
     (case heuristic_row cfg d i [0..<n] hm of
        Inl e \<Rightarrow> Inl e
      | Inr hm' \<Rightarrow> heuristic_rows cfg d n is hm')"

text \<open>
  The body reads the module's global \<^verbatim>\<open>numVertices\<close> (the first argument here), not
  its own parameter \<^verbatim>\<open>numVerticies\<close>, which is never used.
\<close>

definition calculate_heuristic ::
  "config \<Rightarrow> nat \<Rightarrow> int matrix \<Rightarrow> nat \<Rightarrow> error + npfloat matrix" where
  "calculate_heuristic cfg numVertices d numVerticies =
     heuristic_rows cfg d numVertices [0..<numVertices]
       (replicate numVertices (replicate numVertices (Fin 1)))"

section \<open>calculate_path_cost\<close>

text \<open>
  Lines 102 to 108: \<^verbatim>\<open>matrix[path[:-1], path[1:]]\<close> reads the entry of every consecutive
  pair of the path (an \<^verbatim>\<open>IndexError\<close> when a vertex is out of range), and the entries
  are summed.
\<close>

definition calculate_path_cost :: "int matrix \<Rightarrow> nat list \<Rightarrow> error + int" where
  "calculate_path_cost m path =
     (let currentNodes = butlast path; nextNodes = tl path in
      if list_all (\<lambda>(u, v). u < length m \<and> v < length (m ! u)) (zip currentNodes nextNodes)
      then Inr (sum_list (map (\<lambda>(u, v). m ! u ! v) (zip currentNodes nextNodes)))
      else Inl IndexError)"

text \<open>Line 215: the list comprehension over the paths of one iteration.\<close>

fun path_costs :: "int matrix \<Rightarrow> nat list list \<Rightarrow> error + int list" where
  "path_costs d [] = Inr []"
| "path_costs d (path # paths) =
     (case calculate_path_cost d path of
        Inl e \<Rightarrow> Inl e
      | Inr c \<Rightarrow> (case path_costs d paths of Inl e \<Rightarrow> Inl e | Inr cs \<Rightarrow> Inr (c # cs)))"

section \<open>update_pheremone\<close>

text \<open>
  The function changes the matrix \<^verbatim>\<open>T\<close> in place and may raise on the way, so the model
  returns the matrix as the call leaves it, with the error if there is one.
  Lines 124 and 125 scale every entry.
\<close>

definition evaporate :: "config \<Rightarrow> npfloat matrix \<Rightarrow> npfloat matrix" where
  "evaporate cfg T = map (map (np_mul (Fin (1 - RHO cfg)))) T"

text \<open>
  Lines 132 to 136, the loop over \<^verbatim>\<open>j\<close> for one ant: \<open>delta\<close> is \<^verbatim>\<open>1/pathCosts[i]\<close>,
  \<open>cost\<close> is \<^verbatim>\<open>pathCosts[i]\<close> and \<open>elite\<close> is \<^verbatim>\<open>i in elitistIndex\<close>.
\<close>

fun deposit_edges ::
  "config \<Rightarrow> nat list \<Rightarrow> rat \<Rightarrow> int \<Rightarrow> bool \<Rightarrow> nat list \<Rightarrow> npfloat matrix \<Rightarrow>
   npfloat matrix \<times> error option" where
  "deposit_edges cfg path delta cost elite [] T = (T, None)"
| "deposit_edges cfg path delta cost elite (j # js) T =
     (if j + 1 < length path \<and> path ! j < length T \<and>
         path ! (j + 1) < length (T ! (path ! j)) then
        let u = path ! j; v = path ! (j + 1);
            T1 = store2 T u v (np_add (T ! u ! v) (Fin delta));
            T2 = (if elite \<and> ELITIST cfg
                  then store2 T1 u v
                         (np_add (T1 ! u ! v) (Fin (of_int cost * ELITISTFACTOR cfg)))
                  else T1)
        in deposit_edges cfg path delta cost elite js T2
      else (T, Some IndexError))"

text \<open>
  Lines 128 to 136, the loop over the ants. The costs are Python integers, so
  \<^verbatim>\<open>1/pathCosts[i]\<close> raises \<^verbatim>\<open>ZeroDivisionError\<close> on a cost of zero.
\<close>

fun deposit_ants ::
  "config \<Rightarrow> nat list list \<Rightarrow> int list \<Rightarrow> nat \<Rightarrow> nat list \<Rightarrow> nat list \<Rightarrow> npfloat matrix \<Rightarrow>
   npfloat matrix \<times> error option" where
  "deposit_ants cfg allPaths pathCosts numVertices elitistIndex [] T = (T, None)"
| "deposit_ants cfg allPaths pathCosts numVertices elitistIndex (i # is) T =
     (if length pathCosts \<le> i then (T, Some IndexError)
      else if pathCosts ! i = 0 then (T, Some ZeroDivisionError)
      else
        (case deposit_edges cfg (allPaths ! i) (1 / of_int (pathCosts ! i)) (pathCosts ! i)
                (i \<in> set elitistIndex) [0..<numVertices - 1] T of
           (T', Some e) \<Rightarrow> (T', Some e)
         | (T', None) \<Rightarrow> deposit_ants cfg allPaths pathCosts numVertices elitistIndex is T'))"

definition update_pheremone ::
  "config \<Rightarrow> npfloat matrix \<Rightarrow> nat list list \<Rightarrow> int list \<Rightarrow> nat \<Rightarrow> nat list \<Rightarrow>
   npfloat matrix \<times> error option" where
  "update_pheremone cfg T allPaths pathCosts numVertices elitistIndex =
     deposit_ants cfg allPaths pathCosts numVertices elitistIndex [0..<length allPaths]
       (evaporate cfg T)"

section \<open>One ant\<close>

text \<open>Line 186, \<^verbatim>\<open>H[:, path] = 0\<close>: the columns of the visited vertices are zeroed.\<close>

definition zero_columns :: "npfloat matrix \<Rightarrow> nat list \<Rightarrow> npfloat matrix" where
  "zero_columns H path = map (\<lambda>row. fold (\<lambda>j r. r[j := Fin 0]) path row) H"

text \<open>Line 190, \<^verbatim>\<open>N = (T[curr] ** ALPHA) * (H[curr] ** BETA)\<close>, and line 192, \<^verbatim>\<open>np.sum(N)\<close>.\<close>

definition desirability :: "config \<Rightarrow> npfloat matrix \<Rightarrow> npfloat matrix \<Rightarrow> nat \<Rightarrow> npfloat list" where
  "desirability cfg T H currCity =
     map2 (\<lambda>t h. np_mul (np_pow t (ALPHA cfg)) (np_pow h (BETA cfg))) (T ! currCity) (H ! currCity)"

definition np_sum :: "npfloat list \<Rightarrow> npfloat" where
  "np_sum xs = foldl np_add (Fin 0) xs"

text \<open>Lines 190 to 195: the vector \<^verbatim>\<open>P = N / den\<close>. Nothing guards a \<^verbatim>\<open>den\<close> of zero.\<close>

definition transition :: "config \<Rightarrow> npfloat matrix \<Rightarrow> npfloat matrix \<Rightarrow> nat \<Rightarrow> npfloat list" where
  "transition cfg T H currCity =
     (let N = desirability cfg T H currCity; den = np_sum N in map (\<lambda>x. np_div x den) N)"

text \<open>
  Lines 202 to 208, the loop over \<^verbatim>\<open>i\<close>: the first vertex at which the cumulative sum
  reaches the draw, if there is one. The arguments are the entries of \<^verbatim>\<open>P\<close> still to
  read, the draw, \<^verbatim>\<open>CP\<close> and \<^verbatim>\<open>i\<close>.
\<close>

fun select_city :: "npfloat list \<Rightarrow> npfloat \<Rightarrow> npfloat \<Rightarrow> nat \<Rightarrow> nat option" where
  "select_city [] rand CP i = None"
| "select_city (p # ps) rand CP i =
     (let CP' = np_add CP p in
      if np_ge CP' rand then Some i else select_city ps rand CP' (Suc i))"

text \<open>
  The random generator is the list of the values it will return: the integers behind
  \<^verbatim>\<open>random.randint\<close> and the numbers of \<^verbatim>\<open>random.random()\<close>, which lie in \<open>[0, 1)\<close>.
  A loop that needs a draw when the list is empty has not finished: the result is
  \<open>None\<close>.
\<close>

record rng =
  starts :: "nat list"
  rands :: "rat list"

text \<open>
  Lines 183 to 208, the \<^verbatim>\<open>while\<close> loop. When no vertex is selected the path and the
  current city (\<^verbatim>\<open>curr\<close>) stay as they are and the loop goes round again with the next draw.
\<close>

fun construct_path ::
  "config \<Rightarrow> npfloat matrix \<Rightarrow> npfloat matrix \<Rightarrow> nat \<Rightarrow> nat list \<Rightarrow> nat \<Rightarrow> rat list \<Rightarrow>
   (nat list \<times> rat list) option" where
  "construct_path cfg T H numVertices path currCity [] =
     (if length path = numVertices then Some (path, []) else None)"
| "construct_path cfg T H numVertices path currCity (r # rs) =
     (if length path = numVertices then Some (path, r # rs)
      else
        let H' = zero_columns H path;
            P = transition cfg T H' currCity
        in (case select_city (take numVertices P) (Fin r) (Fin 0) 0 of
              None \<Rightarrow> construct_path cfg T H' numVertices path currCity rs
            | Some i \<Rightarrow> construct_path cfg T H' numVertices (path @ [i]) i rs))"

text \<open>
  Lines 169 to 211, one ant. \<^verbatim>\<open>random.randint(0, numVertices - 1)\<close> raises
  \<^verbatim>\<open>ValueError\<close> on an empty range and otherwise returns a vertex: the generator's
  next integer, reduced modulo \<^verbatim>\<open>numVertices\<close>.
\<close>

definition ant ::
  "config \<Rightarrow> npfloat matrix \<Rightarrow> npfloat matrix \<Rightarrow> nat \<Rightarrow> rng \<Rightarrow> (error + nat list \<times> rng) option" where
  "ant cfg T H1 numVertices g =
     (if numVertices = 0 then Some (Inl ValueError)
      else
        (case starts g of
           [] \<Rightarrow> None
         | s # ss \<Rightarrow>
             let startingCity = s mod numVertices in
             (case construct_path cfg T H1 numVertices [startingCity] startingCity (rands g) of
                None \<Rightarrow> None
              | Some (path, rs) \<Rightarrow>
                  Some (Inr (path @ [startingCity], \<lparr>starts = ss, rands = rs\<rparr>)))))"

section \<open>ant_colony_optimisation\<close>

text \<open>Lines 167 to 212, the loop over the ants of one iteration.\<close>

fun colony ::
  "config \<Rightarrow> npfloat matrix \<Rightarrow> npfloat matrix \<Rightarrow> nat \<Rightarrow> nat \<Rightarrow> nat list list \<Rightarrow> rng \<Rightarrow>
   (error + nat list list \<times> rng) option" where
  "colony cfg T H1 numVertices 0 allPaths g = Some (Inr (allPaths, g))"
| "colony cfg T H1 numVertices (Suc k) allPaths g =
     (case ant cfg T H1 numVertices g of
        None \<Rightarrow> None
      | Some (Inl e) \<Rightarrow> Some (Inl e)
      | Some (Inr (path, g')) \<Rightarrow> colony cfg T H1 numVertices k (allPaths @ [path]) g')"

text \<open>\<^verbatim>\<open>xs[:v]\<close>: a negative \<open>v\<close> counts from the end.\<close>

definition py_take :: "int \<Rightarrow> 'a list \<Rightarrow> 'a list" where
  "py_take v xs = (if 0 \<le> v then take (nat v) xs else take (length xs - nat (- v)) xs)"

text \<open>Lines 220 and 221; Python's \<^verbatim>\<open>sorted\<close> is stable, as \<open>sort_key\<close> is.\<close>

definition elitist_indices :: "config \<Rightarrow> int list \<Rightarrow> nat list" where
  "elitist_indices cfg pathCosts =
     py_take (py_round (ELITISTFACTOR cfg * of_nat (K cfg)))
       (sort_key (\<lambda>i. pathCosts ! i) [0..<length pathCosts])"

text \<open>
  The state of the run: the global matrix \<^verbatim>\<open>T\<close>, the random generator, and the local
  variables of lines 154 to 158.
\<close>

record aco_state =
  pheromone :: "npfloat matrix"
  generator :: rng
  bestPathCost :: int
  bestPath :: "nat list"
  worsePathCost :: int
  worstPath :: "nat list"
  avg :: int

definition initial_state :: "npfloat matrix \<Rightarrow> rng \<Rightarrow> aco_state" where
  "initial_state T g =
     \<lparr>pheromone = T, generator = g, bestPathCost = 1000000000, bestPath = [],
      worsePathCost = 10, worstPath = [], avg = 0\<rparr>"

text \<open>Lines 164 to 215: the paths of one iteration and their costs.\<close>

definition tours ::
  "config \<Rightarrow> int matrix \<Rightarrow> npfloat matrix \<Rightarrow> nat \<Rightarrow> aco_state \<Rightarrow>
   (error + nat list list \<times> int list \<times> rng) option" where
  "tours cfg d H1 numVertices st =
     (case colony cfg (pheromone st) H1 numVertices (K cfg) [] (generator st) of
        None \<Rightarrow> None
      | Some (Inl e) \<Rightarrow> Some (Inl e)
      | Some (Inr (allPaths, g)) \<Rightarrow>
          (case path_costs d allPaths of
             Inl e \<Rightarrow> Some (Inl e)
           | Inr pathCosts \<Rightarrow> Some (Inr (allPaths, pathCosts, g))))"

text \<open>Lines 228 to 244; \<^verbatim>\<open>sorted_pairs[0]\<close> raises \<^verbatim>\<open>IndexError\<close> on an empty list.\<close>

definition track_extremes :: "int list \<Rightarrow> nat list list \<Rightarrow> aco_state \<Rightarrow> error + aco_state" where
  "track_extremes pathCosts allPaths st =
     (let sorted_pairs = sort_key fst (zip pathCosts allPaths) in
      if sorted_pairs = [] then Inl IndexError
      else
        let bCost = fst (hd sorted_pairs); bPath = snd (hd sorted_pairs);
            st1 = (if bCost < bestPathCost st
                   then st\<lparr>bestPathCost := bCost, bestPath := bPath\<rparr> else st);
            wCost = fst (last sorted_pairs); wPath = snd (last sorted_pairs)
        in Inr (if worsePathCost st1 < wCost
                then st1\<lparr>worsePathCost := wCost, worstPath := wPath\<rparr> else st1))"

text \<open>Lines 161 to 244, the body of the loop over the iterations.\<close>

definition iteration ::
  "config \<Rightarrow> int matrix \<Rightarrow> npfloat matrix \<Rightarrow> nat \<Rightarrow> aco_state \<Rightarrow> (error + aco_state) option" where
  "iteration cfg d H1 numVertices st =
     (case tours cfg d H1 numVertices st of
        None \<Rightarrow> None
      | Some (Inl e) \<Rightarrow> Some (Inl e)
      | Some (Inr (allPaths, pathCosts, g)) \<Rightarrow>
          let elitistIndex = (if ELITIST cfg then elitist_indices cfg pathCosts else []) in
          (case update_pheremone cfg (pheromone st) allPaths pathCosts numVertices elitistIndex of
             (T', Some e) \<Rightarrow> Some (Inl e)
           | (T', None) \<Rightarrow>
               (case track_extremes pathCosts allPaths
                       (st\<lparr>pheromone := T', generator := g,
                           avg := avg st + sum_list pathCosts\<rparr>) of
                  Inl e \<Rightarrow> Some (Inl e)
                | Inr st' \<Rightarrow> Some (Inr st'))))"

fun aco_loop ::
  "config \<Rightarrow> int matrix \<Rightarrow> npfloat matrix \<Rightarrow> nat \<Rightarrow> nat \<Rightarrow> aco_state \<Rightarrow>
   (error + aco_state) option" where
  "aco_loop cfg d H1 numVertices 0 st = Some (Inr st)"
| "aco_loop cfg d H1 numVertices (Suc x) st =
     (case iteration cfg d H1 numVertices st of
        None \<Rightarrow> None
      | Some (Inl e) \<Rightarrow> Some (Inl e)
      | Some (Inr st') \<Rightarrow> aco_loop cfg d H1 numVertices x st')"

text \<open>
  The function reads the distance matrix \<^verbatim>\<open>d\<close> and the pheromone matrix \<^verbatim>\<open>T\<close> as
  globals; here they are arguments, with the random generator. Line 247 returns
  \<^verbatim>\<open>round(avg / K * ITER)\<close> as the fifth component, and \<^verbatim>\<open>avg / K\<close> divides Python
  integers.
\<close>

definition ant_colony_optimisation ::
  "config \<Rightarrow> int matrix \<Rightarrow> npfloat matrix \<Rightarrow> npfloat matrix \<Rightarrow> nat \<Rightarrow> rng \<Rightarrow>
   (error + int \<times> nat list \<times> int \<times> nat list \<times> int) option" where
  "ant_colony_optimisation cfg d T H1 numVertices g =
     (case aco_loop cfg d H1 numVertices (ITER cfg) (initial_state T g) of
        None \<Rightarrow> None
      | Some (Inl e) \<Rightarrow> Some (Inl e)
      | Some (Inr st) \<Rightarrow>
          if K cfg = 0 then Some (Inl ZeroDivisionError)
          else Some (Inr (bestPathCost st, bestPath st, worsePathCost st, worstPath st,
                  py_round (of_int (avg st) / of_nat (K cfg) * of_nat (ITER cfg)))))"

text \<open>
  The costs of all the tours a run builds, iteration after iteration: the values the
  variable \<^verbatim>\<open>pathCosts\<close> takes.
\<close>

definition iteration_costs ::
  "config \<Rightarrow> int matrix \<Rightarrow> npfloat matrix \<Rightarrow> nat \<Rightarrow> aco_state \<Rightarrow> int list" where
  "iteration_costs cfg d H1 numVertices st =
     (case tours cfg d H1 numVertices st of
        Some (Inr (allPaths, pathCosts, g)) \<Rightarrow> pathCosts
      | _ \<Rightarrow> [])"

fun run_costs ::
  "config \<Rightarrow> int matrix \<Rightarrow> npfloat matrix \<Rightarrow> nat \<Rightarrow> nat \<Rightarrow> aco_state \<Rightarrow> int list" where
  "run_costs cfg d H1 numVertices 0 st = []"
| "run_costs cfg d H1 numVertices (Suc x) st =
     iteration_costs cfg d H1 numVertices st @
       (case iteration cfg d H1 numVertices st of
          Some (Inr st') \<Rightarrow> run_costs cfg d H1 numVertices x st'
        | _ \<Rightarrow> [])"

section \<open>Well-formed matrices\<close>

text \<open>A numpy array of shape \<open>(n, n)\<close>.\<close>

definition square :: "nat \<Rightarrow> 'a matrix \<Rightarrow> bool" where
  "square n m = (length m = n \<and> list_all (\<lambda>r. length r = n) m)"

text \<open>The entry \<open>(i, j)\<close> that lines 82 to 85 write.\<close>

definition heuristic_entry :: "config \<Rightarrow> int matrix \<Rightarrow> nat \<Rightarrow> nat \<Rightarrow> npfloat" where
  "heuristic_entry cfg d i j =
     (if i = j then Fin 0
      else np_round4 (np_div (Fin (of_int (Q cfg))) (Fin (of_int (d ! i ! j)))))"

text \<open>A pheromone matrix as the program starts with: square, with a diagonal of zeros.\<close>

definition zero_diagonal :: "nat \<Rightarrow> npfloat matrix \<Rightarrow> bool" where
  "zero_diagonal n T = (square n T \<and> list_all (\<lambda>i. T ! i ! i = Fin 0) [0..<n])"

section \<open>Matrices\<close>

lemma square_row: "square n m \<Longrightarrow> i < n \<Longrightarrow> length (m ! i) = n"
  by (simp add: square_def list_all_length)

lemma store2_length [simp]: "length (store2 m i j v) = length m"
  by (simp add: store2_def)

lemma store2_row_length [simp]: "length (store2 m i j v ! k) = length (m ! k)"
  by (cases "i < length m") (simp_all add: store2_def nth_list_update list_update_beyond)

lemma store2_get:
  "i < length m \<Longrightarrow> j < length (m ! i) \<Longrightarrow>
   store2 m i j v ! k ! l = (if k = i \<and> l = j then v else m ! k ! l)"
  by (cases "k = i"; cases "l = j") (simp_all add: store2_def)

lemma store2_other_row: "k \<noteq> i \<Longrightarrow> store2 m i j v ! k = m ! k"
  by (simp add: store2_def)

lemma all_less_two: "(\<forall>i<2::nat. P i) \<longleftrightarrow> P 0 \<and> P 1"
  by (auto simp: less_2_cases_iff)

section \<open>The heuristic matrix\<close>

lemma heuristic_row_result:
  assumes "i < length hm" "i < length d"
    and "\<forall>j\<in>set js. j < length (hm ! i) \<and> j < length (d ! i)"
  shows "\<exists>hm'. heuristic_row cfg d i js hm = Inr hm' \<and> length hm' = length hm \<and>
           (\<forall>k. length (hm' ! k) = length (hm ! k)) \<and>
           (\<forall>k. k \<noteq> i \<longrightarrow> hm' ! k = hm ! k) \<and>
           (\<forall>j. hm' ! i ! j = (if j \<in> set js then heuristic_entry cfg d i j else hm ! i ! j))"
  using assms
proof (induction js arbitrary: hm)
  case Nil
  then show ?case by simp
next
  case (Cons j js)
  let ?v = "heuristic_entry cfg d i j"
  let ?hm = "store2 hm i j ?v"
  have step: "heuristic_row cfg d i (j # js) hm = heuristic_row cfg d i js ?hm"
    using Cons.prems by (simp add: lookup2_def heuristic_entry_def)
  have "\<exists>hm'. heuristic_row cfg d i js ?hm = Inr hm' \<and> length hm' = length ?hm \<and>
           (\<forall>k. length (hm' ! k) = length (?hm ! k)) \<and>
           (\<forall>k. k \<noteq> i \<longrightarrow> hm' ! k = ?hm ! k) \<and>
           (\<forall>j. hm' ! i ! j = (if j \<in> set js then heuristic_entry cfg d i j else ?hm ! i ! j))"
    using Cons.prems by (intro Cons.IH) simp_all
  then obtain hm' where h: "heuristic_row cfg d i js ?hm = Inr hm'" "length hm' = length ?hm"
      "\<forall>k. length (hm' ! k) = length (?hm ! k)" "\<forall>k. k \<noteq> i \<longrightarrow> hm' ! k = ?hm ! k"
      "\<forall>l. hm' ! i ! l = (if l \<in> set js then heuristic_entry cfg d i l else ?hm ! i ! l)"
    by blast
  have get: "\<And>l. ?hm ! i ! l = (if l = j then ?v else hm ! i ! l)"
    using Cons.prems by (simp add: store2_get)
  show ?case
    using h step by (auto simp: get store2_other_row)
qed

lemma heuristic_rows_result:
  assumes "square n d" "length hm = n" "\<forall>k<n. length (hm ! k) = n" "\<forall>i\<in>set is. i < n"
  shows "\<exists>hm'. heuristic_rows cfg d n is hm = Inr hm' \<and> length hm' = n \<and>
           (\<forall>k<n. length (hm' ! k) = n) \<and>
           (\<forall>i<n. \<forall>j<n. hm' ! i ! j =
               (if i \<in> set is then heuristic_entry cfg d i j else hm ! i ! j))"
  using assms(2-)
proof (induction "is" arbitrary: hm)
  case Nil
  then show ?case by simp
next
  case (Cons i "is")
  have i: "i < n" using Cons.prems by simp
  have "\<exists>hm'. heuristic_row cfg d i [0..<n] hm = Inr hm' \<and> length hm' = length hm \<and>
           (\<forall>k. length (hm' ! k) = length (hm ! k)) \<and>
           (\<forall>k. k \<noteq> i \<longrightarrow> hm' ! k = hm ! k) \<and>
           (\<forall>j. hm' ! i ! j =
               (if j \<in> set [0..<n] then heuristic_entry cfg d i j else hm ! i ! j))"
    using Cons.prems i assms(1)
    by (intro heuristic_row_result) (simp_all add: square_def list_all_length)
  then obtain h1 where h1: "heuristic_row cfg d i [0..<n] hm = Inr h1" "length h1 = length hm"
      "\<forall>k. length (h1 ! k) = length (hm ! k)" "\<forall>k. k \<noteq> i \<longrightarrow> h1 ! k = hm ! k"
      "\<forall>j. h1 ! i ! j = (if j \<in> set [0..<n] then heuristic_entry cfg d i j else hm ! i ! j)"
    by blast
  have "\<exists>hm'. heuristic_rows cfg d n is h1 = Inr hm' \<and> length hm' = n \<and>
           (\<forall>k<n. length (hm' ! k) = n) \<and>
           (\<forall>i<n. \<forall>j<n. hm' ! i ! j =
               (if i \<in> set is then heuristic_entry cfg d i j else h1 ! i ! j))"
    using Cons.prems h1 by (intro Cons.IH) simp_all
  then obtain h2 where h2: "heuristic_rows cfg d n is h1 = Inr h2" "length h2 = n"
      "\<forall>k<n. length (h2 ! k) = n"
      "\<forall>i<n. \<forall>j<n. h2 ! i ! j = (if i \<in> set is then heuristic_entry cfg d i j else h1 ! i ! j)"
    by blast
  have "heuristic_rows cfg d n (i # is) hm = Inr h2"
    using h1 h2 by simp
  moreover have "\<forall>a<n. \<forall>j<n. h2 ! a ! j =
      (if a \<in> set (i # is) then heuristic_entry cfg d a j else hm ! a ! j)"
    using h1 h2 by auto
  ultimately show ?case using h2 by blast
qed

lemma calculate_heuristic_result:
  assumes "square n d"
  shows "\<exists>H. calculate_heuristic cfg n d nv = Inr H \<and> square n H \<and>
           (\<forall>i<n. \<forall>j<n. H ! i ! j = heuristic_entry cfg d i j)"
proof -
  have "\<exists>hm'. heuristic_rows cfg d n [0..<n] (replicate n (replicate n (Fin 1))) = Inr hm' \<and>
           length hm' = n \<and> (\<forall>k<n. length (hm' ! k) = n) \<and>
           (\<forall>i<n. \<forall>j<n. hm' ! i ! j = (if i \<in> set [0..<n] then heuristic_entry cfg d i j
               else replicate n (replicate n (Fin 1)) ! i ! j))"
    using assms by (intro heuristic_rows_result) simp_all
  then show ?thesis
    by (auto simp: calculate_heuristic_def square_def list_all_length)
qed

text \<open>
  C4. On a square distance matrix whose off-diagonal entries are all positive,
  \<^verbatim>\<open>calculate_heuristic\<close> raises nothing and returns a square matrix of finite numbers:
  \<open>0\<close> on the diagonal and \<open>Q / d[i][j]\<close> rounded to four decimal places elsewhere.
\<close>

theorem calculate_heuristic_positive:
  assumes "square n d" and "\<forall>i<n. \<forall>j<n. i \<noteq> j \<longrightarrow> 0 < d ! i ! j"
  shows "\<exists>H. calculate_heuristic cfg n d nv = Inr H \<and> square n H \<and>
           (\<forall>i<n. \<forall>j<n. H ! i ! j =
              (if i = j then Fin 0
               else Fin (round4 (of_int (Q cfg) / of_int (d ! i ! j)))))"
proof -
  obtain H where H: "calculate_heuristic cfg n d nv = Inr H" "square n H"
      "\<forall>i<n. \<forall>j<n. H ! i ! j = heuristic_entry cfg d i j"
    using calculate_heuristic_result [OF assms(1)] by blast
  have "heuristic_entry cfg d i j =
      (if i = j then Fin 0 else Fin (round4 (of_int (Q cfg) / of_int (d ! i ! j))))"
    if "i < n" "j < n" for i j
  proof (cases "i = j")
    case True
    then show ?thesis by (simp add: heuristic_entry_def)
  next
    case False
    with that assms(2) have "0 < d ! i ! j" by blast
    with False show ?thesis by (simp add: heuristic_entry_def)
  qed
  with H show ?thesis by auto
qed

theorem calculate_heuristic_positive_witness:
  "square 2 [[0, 3], [7, 0 :: int]] \<and>
   (\<exists>H. calculate_heuristic source_config 2 [[0, 3], [7, 0]] 2 = Inr H \<and>
        H ! 0 ! 0 = Fin 0 \<and> H ! 0 ! 1 = Fin (16667 / 10000) \<and>
        H ! 1 ! 0 = Fin (7143 / 10000) \<and> H ! 1 ! 1 = Fin 0)"
proof -
  let ?d = "[[0, 3], [7, 0 :: int]]"
  have sq: "square 2 ?d" by (simp add: square_def)
  have pos: "\<forall>i<2. \<forall>j<2. i \<noteq> j \<longrightarrow> 0 < ?d ! i ! j"
    by (simp add: all_less_two)
  obtain H where H: "calculate_heuristic source_config 2 ?d 2 = Inr H"
      "\<forall>i<2. \<forall>j<2. H ! i ! j =
         (if i = j then Fin 0
          else Fin (round4 (of_int (Q source_config) / of_int (?d ! i ! j))))"
    using calculate_heuristic_positive [OF sq pos, of source_config 2] by blast
  have f1: "\<lfloor>50000 / 3 :: rat\<rfloor> = 16666" and f2: "\<lfloor>50000 / 7 :: rat\<rfloor> = 7142"
    by (rule floor_unique; simp)+
  have r1: "round4 (5 / 3) = 16667 / 10000" and r2: "round4 (5 / 7) = 7143 / 10000"
    by (simp_all add: round4_def py_round_def Let_def f1 f2)
  from H(2) have "H ! 0 ! 0 = Fin 0" "H ! 0 ! 1 = Fin (16667 / 10000)"
      "H ! 1 ! 0 = Fin (7143 / 10000)" "H ! 1 ! 1 = Fin 0"
    by (simp_all add: all_less_two source_config_def r1 r2)
  with sq H(1) show ?thesis by blast
qed

text \<open>
  C5, as the code has it. A distance of zero off the diagonal raises nothing: numpy
  divides by zero without an exception, and \<^verbatim>\<open>calculate_heuristic\<close> returns a matrix on
  every square distance matrix. Where \<open>d[i][j] = 0\<close> off the diagonal its entry is not
  a number: plus infinity for a positive \<open>Q\<close>, minus infinity for a negative one, NaN
  for \<open>Q = 0\<close>.
\<close>

theorem calculate_heuristic_zero_distance:
  assumes "square n d" and "i < n" and "j < n" and "i \<noteq> j" and "d ! i ! j = 0"
  shows "\<exists>H. calculate_heuristic cfg n d nv = Inr H \<and>
           H ! i ! j = (if 0 < Q cfg then PInf else if Q cfg < 0 then NInf else NaN)"
proof -
  obtain H where H: "calculate_heuristic cfg n d nv = Inr H"
      "\<forall>i<n. \<forall>j<n. H ! i ! j = heuristic_entry cfg d i j"
    using calculate_heuristic_result [OF assms(1)] by blast
  have "heuristic_entry cfg d i j = (if 0 < Q cfg then PInf else if Q cfg < 0 then NInf else NaN)"
    using assms(4,5) by (simp add: heuristic_entry_def)
  with H assms(2,3) show ?thesis by auto
qed

theorem calculate_heuristic_zero_distance_witness:
  "square 2 [[0, 0], [1, 0 :: int]] \<and>
   (\<exists>H. calculate_heuristic source_config 2 [[0, 0], [1, 0]] 7 = Inr H \<and> H ! 0 ! 1 = PInf)"
proof -
  let ?d = "[[0, 0], [1, 0 :: int]]"
  have sq: "square 2 ?d" by (simp add: square_def)
  have z: "?d ! 0 ! 1 = 0" by simp
  have "\<exists>H. calculate_heuristic source_config 2 ?d 7 = Inr H \<and>
           H ! 0 ! 1 = (if 0 < Q source_config then PInf
                        else if Q source_config < 0 then NInf else NaN)"
    using calculate_heuristic_zero_distance [OF sq _ _ _ z, of source_config 7] by simp
  then show ?thesis using sq by (simp add: source_config_def)
qed

theorem calculate_heuristic_zero_distance_returns:
  "calculate_heuristic source_config 2 [[0, 0], [1, 0]] 2 = Inr [[Fin 0, PInf], [Fin 5, Fin 0]]"
  by (simp add: calculate_heuristic_def source_config_def lookup2_def store2_def round4_def
      py_round_def upt_rec numeral_2_eq_2)

section \<open>The pheromone update\<close>

text \<open>
  C1 at a concrete input: two vertices, one ant with the cyclic path \<open>[0, 1, 0]\<close> of
  cost \<open>10\<close>, every pheromone off the diagonal at \<open>1\<close>. The loop of line 132 runs over
  \<^verbatim>\<open>range(numVertices - 1)\<close>, so it deposits on the edge \<open>(0, 1)\<close> only: the closing
  edge \<open>(1, 0)\<close> ends at \<open>1/2\<close>, the evaporated value, and not at \<open>1/2 + 1/10\<close>.
\<close>

theorem update_pheremone_skips_closing_edge:
  "update_pheremone source_config [[Fin 0, Fin 1], [Fin 1, Fin 0]] [[0, 1, 0]] [10] 2 [] =
     ([[Fin 0, Fin (3 / 5)], [Fin (1 / 2), Fin 0]], None)"
  by (simp add: update_pheremone_def evaporate_def source_config_def store2_def upt_rec)

text \<open>
  C6 at a concrete input: with \<^verbatim>\<open>ELITIST\<close> enabled and ant \<open>0\<close> elitist on the same
  path, the edge \<open>(0, 1)\<close> receives the deposit \<open>1/10\<close> and the bonus \<open>10 * 0.2 = 2\<close>,
  and the closing edge \<open>(1, 0)\<close> receives neither.
\<close>

theorem elitist_bonus_skips_closing_edge:
  "update_pheremone (source_config\<lparr>ELITIST := True\<rparr>) [[Fin 0, Fin 1], [Fin 1, Fin 0]]
       [[0, 1, 0]] [10] 2 [0] =
     ([[Fin 0, Fin (13 / 5)], [Fin (1 / 2), Fin 0]], None)"
  by (simp add: update_pheremone_def evaporate_def source_config_def store2_def upt_rec)

section \<open>The path of one ant\<close>

text \<open>
  C2 at a concrete input: two vertices, the ant starts at vertex \<open>0\<close> and
  \<^verbatim>\<open>random.random()\<close> returns \<open>0.0\<close>. The probability of vertex \<open>0\<close> is \<open>0\<close>, and
  \<^verbatim>\<open>CP >= rand\<close> holds at once, so the ant moves to vertex \<open>0\<close> again: the path is
  \<open>[0, 0, 0]\<close> and vertex \<open>1\<close> is never visited.
\<close>

theorem ant_revisits_on_zero_draw:
  "ant source_config [[Fin 0, Fin (1 / 2)], [Fin (1 / 2), Fin 0]] [[Fin 0, Fin 5], [Fin 5, Fin 0]] 2
       \<lparr>starts = [0], rands = [0]\<rparr> =
     Some (Inr ([0, 0, 0], \<lparr>starts = [], rands = []\<rparr>))"
  by (simp add: ant_def source_config_def zero_columns_def transition_def desirability_def
      np_sum_def numeral_3_eq_3)

section \<open>The diagonal of the pheromone matrix\<close>

lemma zero_diagonal_iff:
  "zero_diagonal n T \<longleftrightarrow> square n T \<and> (\<forall>i<n. T ! i ! i = Fin 0)"
  by (auto simp: zero_diagonal_def list_all_iff)

lemma square_store2: "square n T \<Longrightarrow> square n (store2 T u v x)"
  by (simp add: square_def list_all_length)

lemma zero_diagonal_store2:
  assumes "zero_diagonal n T" "u < length T" "v < length (T ! u)" "u \<noteq> v"
  shows "zero_diagonal n (store2 T u v x)"
  using assms by (auto simp: zero_diagonal_iff square_store2 store2_get)

lemma zero_diagonal_evaporate:
  assumes "zero_diagonal n T"
  shows "zero_diagonal n (evaporate cfg T)"
  using assms by (auto simp: zero_diagonal_iff square_def list_all_length evaporate_def)

lemma deposit_edges_zero_diagonal:
  assumes "zero_diagonal n T" "\<forall>j. j + 1 < length path \<longrightarrow> path ! j \<noteq> path ! (j + 1)"
  shows "zero_diagonal n (fst (deposit_edges cfg path delta cost elite js T))"
  using assms(1)
proof (induction js arbitrary: T)
  case Nil
  then show ?case by simp
next
  case (Cons j js)
  show ?case
  proof (cases "j + 1 < length path \<and> path ! j < length T \<and>
         path ! (j + 1) < length (T ! (path ! j))")
    case False
    then show ?thesis using Cons.prems by auto
  next
    case True
    let ?u = "path ! j" and ?v = "path ! (j + 1)"
    let ?T1 = "store2 T ?u ?v (np_add (T ! ?u ! ?v) (Fin delta))"
    let ?T2 = "if elite \<and> ELITIST cfg
               then store2 ?T1 ?u ?v (np_add (?T1 ! ?u ! ?v) (Fin (of_int cost * ELITISTFACTOR cfg)))
               else ?T1"
    have ne: "?u \<noteq> ?v" using True assms(2) by blast
    have z1: "zero_diagonal n ?T1"
      using Cons.prems True ne by (intro zero_diagonal_store2) simp_all
    have z2: "zero_diagonal n ?T2"
      using z1 True ne by (auto intro!: zero_diagonal_store2)
    have "deposit_edges cfg path delta cost elite (j # js) T =
        deposit_edges cfg path delta cost elite js ?T2"
      using True by (simp add: Let_def)
    then show ?thesis using Cons.IH [OF z2] by simp
  qed
qed

lemma deposit_edges_error:
  "snd (deposit_edges cfg path delta cost elite js T) \<noteq> Some ZeroDivisionError"
  by (induction js arbitrary: T) (simp_all add: Let_def)

lemma deposit_ants_zero_diagonal:
  assumes "zero_diagonal n T" "\<forall>i\<in>set is. i < length allPaths"
    and "\<forall>p\<in>set allPaths. \<forall>j. j + 1 < length p \<longrightarrow> p ! j \<noteq> p ! (j + 1)"
  shows "zero_diagonal n (fst (deposit_ants cfg allPaths pathCosts nv el is T))"
  using assms(1,2)
proof (induction "is" arbitrary: T)
  case Nil
  then show ?case by simp
next
  case (Cons i "is")
  let ?r = "deposit_edges cfg (allPaths ! i) (1 / of_int (pathCosts ! i)) (pathCosts ! i)
                (i \<in> set el) [0..<nv - 1] T"
  have "allPaths ! i \<in> set allPaths" using Cons.prems by simp
  then have z: "zero_diagonal n (fst ?r)"
    using assms(3) Cons.prems(1) by (intro deposit_edges_zero_diagonal) auto
  have "zero_diagonal n (fst (deposit_ants cfg allPaths pathCosts nv el is (fst ?r)))"
    using Cons.prems z by (intro Cons.IH) simp_all
  then show ?case
    using Cons.prems(1) z by (cases ?r) (auto split: option.splits)
qed

lemma deposit_ants_error:
  assumes "\<forall>c\<in>set pathCosts. c \<noteq> 0"
  shows "snd (deposit_ants cfg allPaths pathCosts nv el is T) \<noteq> Some ZeroDivisionError"
proof (induction "is" arbitrary: T)
  case Nil
  then show ?case by simp
next
  case (Cons i "is")
  let ?r = "deposit_edges cfg (allPaths ! i) (1 / of_int (pathCosts ! i)) (pathCosts ! i)
                (i \<in> set el) [0..<nv - 1] T"
  have e: "snd ?r \<noteq> Some ZeroDivisionError" by (rule deposit_edges_error)
  show ?case
  proof (cases "length pathCosts \<le> i")
    case True
    then show ?thesis by simp
  next
    case False
    then have "pathCosts ! i \<noteq> 0" using assms by simp
    with False e Cons.IH show ?thesis
      by (cases ?r) (auto split: option.splits)
  qed
qed

text \<open>
  C10. \<^verbatim>\<open>update_pheremone\<close> keeps the diagonal of \<^verbatim>\<open>T\<close> at zero: on a square matrix
  with a zero diagonal, with costs that are not zero and paths without an edge from a
  vertex to itself, the matrix it leaves is square with a zero diagonal, whether the
  call returns or stops on an index out of range, and it never divides by zero.
\<close>

theorem update_pheremone_zero_diagonal:
  assumes "square n T" and "\<forall>i<n. T ! i ! i = Fin 0"
    and "\<forall>c\<in>set pathCosts. c \<noteq> 0"
    and "\<forall>p\<in>set allPaths. \<forall>j. j + 1 < length p \<longrightarrow> p ! j \<noteq> p ! (j + 1)"
  shows "square n (fst (update_pheremone cfg T allPaths pathCosts numVertices elitistIndex)) \<and>
         (\<forall>i<n. fst (update_pheremone cfg T allPaths pathCosts numVertices elitistIndex) ! i ! i
                  = Fin 0) \<and>
         snd (update_pheremone cfg T allPaths pathCosts numVertices elitistIndex)
           \<noteq> Some ZeroDivisionError"
proof -
  have "zero_diagonal n T" using assms(1,2) by (simp add: zero_diagonal_iff)
  then have "zero_diagonal n (evaporate cfg T)" by (rule zero_diagonal_evaporate)
  then have "zero_diagonal n
      (fst (deposit_ants cfg allPaths pathCosts numVertices elitistIndex [0..<length allPaths]
         (evaporate cfg T)))"
    using assms(4) by (intro deposit_ants_zero_diagonal) simp_all
  then show ?thesis
    using deposit_ants_error [OF assms(3)]
    by (simp add: update_pheremone_def zero_diagonal_iff)
qed

theorem update_pheremone_zero_diagonal_witness:
  "square 2 [[Fin 0, Fin 1], [Fin 1, Fin 0]] \<and>
   update_pheremone source_config [[Fin 0, Fin 1], [Fin 1, Fin 0]] [[0, 1, 0]] [10] 2 [] =
     ([[Fin 0, Fin (3 / 5)], [Fin (1 / 2), Fin 0]], None) \<and>
   fst (update_pheremone source_config [[Fin 0, Fin 1], [Fin 1, Fin 0]] [[0, 1, 0]] [10] 2 [])
     ! 1 ! 1 = Fin 0"
proof -
  let ?T = "[[Fin 0, Fin 1], [Fin 1, Fin 0]]"
  have sq: "square 2 ?T" by (simp add: square_def)
  have zd: "\<forall>i<2. ?T ! i ! i = Fin 0" by (simp add: all_less_two)
  have nz: "\<forall>c\<in>set [10 :: int]. c \<noteq> 0" by simp
  have nl: "\<forall>p\<in>set [[0, 1, 0 :: nat]]. \<forall>j. j + 1 < length p \<longrightarrow> p ! j \<noteq> p ! (j + 1)"
    by (auto simp: less_Suc_eq numeral_3_eq_3)
  have ev: "update_pheremone source_config ?T [[0, 1, 0]] [10] 2 [] =
     ([[Fin 0, Fin (3 / 5)], [Fin (1 / 2), Fin 0]], None)"
    by (simp add: update_pheremone_def evaporate_def source_config_def store2_def upt_rec)
  have "\<forall>i<2. fst (update_pheremone source_config ?T [[0, 1, 0]] [10] 2 []) ! i ! i = Fin 0"
    using update_pheremone_zero_diagonal [OF sq zd nz nl, of source_config 2 "[]"] by blast
  then show ?thesis using sq ev by (simp add: all_less_two)
qed

section \<open>A desirability vector of zeros\<close>

lemma np_add_NaN [simp]: "np_add x NaN = NaN"
  by (cases x) simp_all

lemma select_city_all_NaN:
  "list_all (\<lambda>p. p = NaN) ps \<Longrightarrow> select_city ps rand CP i = None"
  by (induction ps arbitrary: CP i) simp_all

lemma np_sum_zeros: "list_all (\<lambda>x. x = Fin 0) xs \<Longrightarrow> np_sum xs = Fin 0"
proof -
  have "list_all (\<lambda>x. x = Fin 0) xs \<Longrightarrow> foldl np_add (Fin 0) xs = Fin 0"
    by (induction xs) simp_all
  then show "list_all (\<lambda>x. x = Fin 0) xs \<Longrightarrow> np_sum xs = Fin 0"
    by (simp add: np_sum_def)
qed

lemma transition_all_NaN:
  assumes "list_all (\<lambda>x. x = Fin 0) (desirability cfg T H currCity)"
  shows "list_all (\<lambda>p. p = NaN) (take n (transition cfg T H currCity))"
proof -
  let ?N = "desirability cfg T H currCity"
  have "transition cfg T H currCity = map (\<lambda>x. np_div x (Fin 0)) ?N"
    using assms by (simp add: transition_def Let_def np_sum_zeros)
  moreover have "\<forall>p\<in>set (map (\<lambda>x. np_div x (Fin 0)) ?N). p = NaN"
    using assms by (auto simp: list_all_iff)
  ultimately show ?thesis
    by (auto simp: list_all_iff dest: in_set_takeD)
qed

lemma fold_zero_length [simp]: "length (fold (\<lambda>j r. r[j := Fin 0]) path row) = length row"
  by (induction path arbitrary: row) simp_all

lemma fold_zero_nth:
  "k < length row \<Longrightarrow>
   fold (\<lambda>j r. r[j := Fin 0]) path row ! k = (if k \<in> set path then Fin 0 else row ! k)"
  by (induction path arbitrary: row) (auto simp: nth_list_update)

lemma zero_columns_idem: "zero_columns (zero_columns H path) path = zero_columns H path"
proof -
  have "fold (\<lambda>j r. r[j := Fin 0]) path (fold (\<lambda>j r. r[j := Fin 0]) path row) =
      fold (\<lambda>j r. r[j := Fin 0]) path row" for row :: "npfloat list"
    by (rule nth_equalityI) (simp_all add: fold_zero_nth)
  then show ?thesis by (simp add: zero_columns_def)
qed

lemma construct_path_no_progress:
  assumes "length path \<noteq> n"
    and "list_all (\<lambda>x. x = Fin 0) (desirability cfg T (zero_columns H path) currCity)"
  shows "construct_path cfg T H n path currCity rs = None"
  using assms(2)
proof (induction rs arbitrary: H)
  case Nil
  then show ?case using assms(1) by simp
next
  case (Cons r rs)
  let ?H = "zero_columns H path"
  have "select_city (take n (transition cfg T ?H currCity)) (Fin r) (Fin 0) 0 = None"
    using Cons.prems by (intro select_city_all_NaN transition_all_NaN)
  moreover have "construct_path cfg T ?H n path currCity rs = None"
    using Cons.prems by (intro Cons.IH) (simp add: zero_columns_idem)
  ultimately show ?case using assms(1) by (simp add: Let_def)
qed

lemma colony_first_ant_hangs:
  "ant cfg T H1 n g = None \<Longrightarrow> 0 < k \<Longrightarrow> colony cfg T H1 n k allPaths g = None"
  by (cases k) simp_all

lemma aco_loop_first_iteration_hangs:
  "iteration cfg d H1 n st = None \<Longrightarrow> 0 < x \<Longrightarrow> aco_loop cfg d H1 n x st = None"
  by (cases x) simp_all

text \<open>
  C3 at a concrete input: two vertices, the ant at vertex \<open>0\<close> with \<open>T[0][1] = 0\<close>.
  Every desirability is zero, so \<^verbatim>\<open>den\<close> is zero and \<^verbatim>\<open>P\<close> holds NaN only: for every
  draw the loop of line 202 selects no city, there is no other choice of a city, and the
  \<^verbatim>\<open>while\<close> loop of line 183 never ends, whatever the draws.
\<close>

theorem zero_desirability_never_selects:
  "transition source_config [[Fin 0, Fin 0], [Fin (1 / 2), Fin 0]]
     (zero_columns [[Fin 0, Fin 5], [Fin 5, Fin 0]] [0]) 0 = [NaN, NaN] \<and>
   select_city [NaN, NaN] (Fin r) (Fin 0) 0 = None \<and>
   construct_path source_config [[Fin 0, Fin 0], [Fin (1 / 2), Fin 0]]
     [[Fin 0, Fin 5], [Fin 5, Fin 0]] 2 [0] 0 rs = None"
proof -
  let ?T = "[[Fin 0, Fin 0], [Fin (1 / 2), Fin 0]]"
  let ?H = "[[Fin 0, Fin 5], [Fin 5, Fin 0]]"
  have N: "desirability source_config ?T (zero_columns ?H [0]) 0 = [Fin 0, Fin 0]"
    by (simp add: desirability_def zero_columns_def source_config_def numeral_3_eq_3)
  have "construct_path source_config ?T ?H 2 [0] 0 rs = None"
    by (rule construct_path_no_progress) (simp_all add: N)
  then show ?thesis
    by (simp add: transition_def N np_sum_def)
qed

text \<open>
  C7 at a concrete input: the constants of the program, two vertices at distance \<open>1\<close>,
  their heuristic matrix, a pheromone matrix with \<open>T[0][1] = 0\<close> (an entry that
  \<^verbatim>\<open>np.round(np.random.rand(..), 4)\<close> can give) and a first ant that starts at vertex
  \<open>0\<close>. Whatever the later draws are, and however many, the run returns nothing: the
  first ant never completes its path.
\<close>

theorem run_never_returns:
  "ant_colony_optimisation source_config [[0, 1], [1, 0]]
     [[Fin 0, Fin 0], [Fin (1 / 2), Fin 0]] [[Fin 0, Fin 5], [Fin 5, Fin 0]] 2
     \<lparr>starts = 0 # ss, rands = rs\<rparr> = None"
proof -
  let ?T = "[[Fin 0, Fin 0], [Fin (1 / 2), Fin 0]]"
  let ?H = "[[Fin 0, Fin 5], [Fin 5, Fin 0]]"
  let ?g = "\<lparr>starts = 0 # ss, rands = rs\<rparr>"
  have N: "desirability source_config ?T (zero_columns ?H [0]) 0 = [Fin 0, Fin 0]"
    by (simp add: desirability_def zero_columns_def source_config_def numeral_3_eq_3)
  have "construct_path source_config ?T ?H 2 [0] 0 rs = None"
    by (rule construct_path_no_progress) (simp_all add: N)
  then have "ant source_config ?T ?H 2 ?g = None"
    by (simp add: ant_def)
  then have "colony source_config ?T ?H 2 (K source_config) [] ?g = None"
    by (rule colony_first_ant_hangs) (simp add: source_config_def)
  then have "iteration source_config [[0, 1], [1, 0]] ?H 2 (initial_state ?T ?g) = None"
    by (simp add: iteration_def tours_def initial_state_def)
  then have "aco_loop source_config [[0, 1], [1, 0]] ?H 2 (ITER source_config)
      (initial_state ?T ?g) = None"
    by (rule aco_loop_first_iteration_hangs) (simp add: source_config_def)
  then show ?thesis
    by (simp add: ant_colony_optimisation_def)
qed

section \<open>The run\<close>

lemma track_extremes_frame:
  assumes "track_extremes pathCosts allPaths st = Inr st'"
  shows "pheromone st' = pheromone st \<and> generator st' = generator st \<and> avg st' = avg st"
  using assms by (auto simp: track_extremes_def Let_def split: if_splits)

lemma track_extremes_worst:
  assumes "track_extremes pathCosts allPaths st = Inr st'"
    and "\<forall>c\<in>set pathCosts. c \<le> worsePathCost st"
  shows "worsePathCost st' = worsePathCost st \<and> worstPath st' = worstPath st"
proof -
  let ?sp = "sort_key fst (zip pathCosts allPaths)"
  have ne: "?sp \<noteq> []" using assms(1) by (auto simp: track_extremes_def Let_def split: if_splits)
  then have "last ?sp \<in> set ?sp" by (rule last_in_set)
  then have "last ?sp \<in> set (zip pathCosts allPaths)" by simp
  then have "fst (last ?sp) \<in> set pathCosts"
    by (metis prod.collapse set_zip_leftD)
  then have le: "fst (last ?sp) \<le> worsePathCost st" using assms(2) by blast
  show ?thesis
    using assms(1) ne le by (auto simp: track_extremes_def Let_def split: if_splits)
qed

lemma iteration_Inr:
  assumes "iteration cfg d H1 n st = Some (Inr st')"
  shows "\<exists>allPaths pathCosts g T'.
           tours cfg d H1 n st = Some (Inr (allPaths, pathCosts, g)) \<and>
           track_extremes pathCosts allPaths
             (st\<lparr>pheromone := T', generator := g, avg := avg st + sum_list pathCosts\<rparr>) = Inr st'"
  using assms
  by (auto simp: iteration_def Let_def split: option.splits sum.splits prod.splits)

lemma iteration_avg:
  assumes "iteration cfg d H1 n st = Some (Inr st')"
  shows "avg st' = avg st + sum_list (iteration_costs cfg d H1 n st)"
proof -
  obtain allPaths pathCosts g T' where t: "tours cfg d H1 n st = Some (Inr (allPaths, pathCosts, g))"
    and tr: "track_extremes pathCosts allPaths
       (st\<lparr>pheromone := T', generator := g, avg := avg st + sum_list pathCosts\<rparr>) = Inr st'"
    using iteration_Inr [OF assms] by blast
  from track_extremes_frame [OF tr] t show ?thesis
    by (simp add: iteration_costs_def)
qed

lemma iteration_worst:
  assumes "iteration cfg d H1 n st = Some (Inr st')"
    and "\<forall>c\<in>set (iteration_costs cfg d H1 n st). c \<le> worsePathCost st"
  shows "worsePathCost st' = worsePathCost st \<and> worstPath st' = worstPath st"
proof -
  obtain allPaths pathCosts g T' where t: "tours cfg d H1 n st = Some (Inr (allPaths, pathCosts, g))"
    and tr: "track_extremes pathCosts allPaths
       (st\<lparr>pheromone := T', generator := g, avg := avg st + sum_list pathCosts\<rparr>) = Inr st'"
    using iteration_Inr [OF assms(1)] by blast
  have "\<forall>c\<in>set pathCosts. c \<le> worsePathCost st"
    using assms(2) t by (simp add: iteration_costs_def)
  with track_extremes_worst [OF tr] show ?thesis by simp
qed

lemma aco_loop_avg:
  "aco_loop cfg d H1 n x st = Some (Inr st') \<Longrightarrow>
   avg st' = avg st + sum_list (run_costs cfg d H1 n x st)"
proof (induction x arbitrary: st)
  case 0
  then show ?case by simp
next
  case (Suc x)
  then obtain st1 where s1: "iteration cfg d H1 n st = Some (Inr st1)"
      and s2: "aco_loop cfg d H1 n x st1 = Some (Inr st')"
    by (auto split: option.splits sum.splits)
  from Suc.IH [OF s2] iteration_avg [OF s1] s1 show ?case by simp
qed

lemma aco_loop_worst:
  "aco_loop cfg d H1 n x st = Some (Inr st') \<Longrightarrow>
   \<forall>c\<in>set (run_costs cfg d H1 n x st). c \<le> worsePathCost st \<Longrightarrow>
   worsePathCost st' = worsePathCost st \<and> worstPath st' = worstPath st"
proof (induction x arbitrary: st)
  case 0
  then show ?case by simp
next
  case (Suc x)
  then obtain st1 where s1: "iteration cfg d H1 n st = Some (Inr st1)"
      and s2: "aco_loop cfg d H1 n x st1 = Some (Inr st')"
    by (auto split: option.splits sum.splits)
  have w1: "worsePathCost st1 = worsePathCost st \<and> worstPath st1 = worstPath st"
    using Suc.prems(2) by (intro iteration_worst [OF s1]) simp
  have "\<forall>c\<in>set (run_costs cfg d H1 n x st1). c \<le> worsePathCost st1"
    using Suc.prems(2) s1 w1 by simp
  from Suc.IH [OF s2 this] w1 show ?case by simp
qed

lemma colony_length:
  "colony cfg T H1 n k allPaths g = Some (Inr (allPaths', g')) \<Longrightarrow>
   length allPaths' = length allPaths + k"
proof (induction k arbitrary: allPaths g)
  case 0
  then show ?case by simp
next
  case (Suc k)
  then obtain path g1 where "ant cfg T H1 n g = Some (Inr (path, g1))"
      and "colony cfg T H1 n k (allPaths @ [path]) g1 = Some (Inr (allPaths', g'))"
    by (auto split: option.splits sum.splits)
  with Suc.IH show ?case by fastforce
qed

lemma path_costs_length: "path_costs d paths = Inr cs \<Longrightarrow> length cs = length paths"
  by (induction paths arbitrary: cs) (auto split: sum.splits)

lemma iteration_costs_length:
  assumes "iteration cfg d H1 n st = Some (Inr st')"
  shows "length (iteration_costs cfg d H1 n st) = K cfg"
proof -
  obtain allPaths pathCosts g where t: "tours cfg d H1 n st = Some (Inr (allPaths, pathCosts, g))"
    using iteration_Inr [OF assms] by blast
  then obtain g1 where "colony cfg (pheromone st) H1 n (K cfg) [] (generator st)
        = Some (Inr (allPaths, g1))" and "path_costs d allPaths = Inr pathCosts"
    by (auto simp: tours_def split: option.splits sum.splits)
  then have "length pathCosts = K cfg"
    using colony_length path_costs_length by fastforce
  with t show ?thesis by (simp add: iteration_costs_def)
qed

lemma run_costs_length:
  "aco_loop cfg d H1 n x st = Some (Inr st') \<Longrightarrow>
   length (run_costs cfg d H1 n x st) = K cfg * x"
proof (induction x arbitrary: st)
  case 0
  then show ?case by simp
next
  case (Suc x)
  then obtain st1 where s1: "iteration cfg d H1 n st = Some (Inr st1)"
      and s2: "aco_loop cfg d H1 n x st1 = Some (Inr st')"
    by (auto split: option.splits sum.splits)
  from Suc.IH [OF s2] iteration_costs_length [OF s1] s1 show ?case by simp
qed

lemma ant_colony_optimisation_Inr:
  assumes "ant_colony_optimisation cfg d T H1 n g = Some (Inr (bCost, bPath, wCost, wPath, a))"
  shows "\<exists>st. aco_loop cfg d H1 n (ITER cfg) (initial_state T g) = Some (Inr st) \<and>
           K cfg \<noteq> 0 \<and> bCost = bestPathCost st \<and> bPath = bestPath st \<and>
           wCost = worsePathCost st \<and> wPath = worstPath st \<and>
           a = py_round (of_int (avg st) / of_nat (K cfg) * of_nat (ITER cfg))"
  using assms
  by (auto simp: ant_colony_optimisation_def split: option.splits sum.splits if_splits)

section \<open>Rounding\<close>

lemma py_round_lower: "x - 1 / 2 \<le> of_int (py_round x)"
proof -
  have "of_int \<lfloor>x\<rfloor> \<le> x" "x < of_int \<lfloor>x\<rfloor> + 1" by linarith+
  then show ?thesis
    by (auto simp: py_round_def Let_def)
qed

lemma scaled_total_not_mean:
  fixes s :: int and k i :: nat
  assumes "0 < s" "0 < k" "1 < i"
  shows "(of_int (py_round (of_int s / of_nat k * of_nat i)) :: rat)
           \<noteq> of_int s / of_nat (k * i)"
proof
  let ?a = "(of_int s :: rat) / of_nat (k * i)"
  let ?m = "py_round (of_int s / of_nat k * of_nat i)"
  assume eq: "(of_int ?m :: rat) = ?a"
  have apos: "0 < ?a" using assms by simp
  then have "0 < (of_int ?m :: rat)" using eq by simp
  then have m1: "(1 :: rat) \<le> of_int ?m" by (simp add: int_one_le_iff_zero_less)
  have i2: "(2 :: rat) \<le> of_nat i" using assms(3) by simp
  have x: "(of_int s :: rat) / of_nat k * of_nat i = ?a * (of_nat i * of_nat i)"
    using assms by (simp add: field_simps)
  have "(4 :: rat) \<le> of_nat i * of_nat i"
    using mult_mono [OF i2 i2] by simp
  then have "?a * 4 \<le> ?a * (of_nat i * of_nat i)"
    using apos by (intro mult_left_mono) simp_all
  then have "?a * 4 - 1 / 2 \<le> of_int ?m"
    using py_round_lower [of "of_int s / of_nat k * of_nat i"] x by linarith
  with eq m1 show False by linarith
qed



lemma small_run:
  "ant_colony_optimisation (source_config\<lparr>K := 1, ITER := 2\<rparr>) [[0, 1], [1, 0]]
     [[Fin 0, Fin 1], [Fin 1, Fin 0]] [[Fin 0, Fin 5], [Fin 5, Fin 0]] 2
     \<lparr>starts = [0, 1], rands = [1 / 2, 1 / 2]\<rparr> = Some (Inr (2, [0, 1, 0], 10, [], 8))"
  by (simp add: ant_colony_optimisation_def initial_state_def iteration_def tours_def ant_def
      transition_def desirability_def zero_columns_def np_sum_def calculate_path_cost_def
      update_pheremone_def evaporate_def store2_def track_extremes_def source_config_def
      py_round_def Let_def numeral_2_eq_2 numeral_3_eq_3 upt_rec)

lemma small_run_costs:
  "run_costs (source_config\<lparr>K := 1, ITER := 2\<rparr>) [[0, 1], [1, 0]]
     [[Fin 0, Fin 5], [Fin 5, Fin 0]] 2 2
     (initial_state [[Fin 0, Fin 1], [Fin 1, Fin 0]] \<lparr>starts = [0, 1], rands = [1 / 2, 1 / 2]\<rparr>)
   = [2, 2]"
  by (simp add: iteration_costs_def initial_state_def iteration_def tours_def ant_def
      transition_def desirability_def zero_columns_def np_sum_def calculate_path_cost_def
      update_pheremone_def evaporate_def store2_def track_extremes_def source_config_def
      py_round_def Let_def numeral_2_eq_2 numeral_3_eq_3 upt_rec)

text \<open>
  C8. A run that returns has built \<open>K * ITER\<close> tours, and the statistic it returns is
  \<^verbatim>\<open>round(avg / K * ITER)\<close> for the sum \<^verbatim>\<open>avg\<close> of their costs. With more than one
  iteration and a positive sum this is never the mean cost of a tour, the sum divided
  by \<open>K * ITER\<close>.
\<close>

theorem average_statistic_is_not_the_mean:
  assumes "ant_colony_optimisation cfg d T H1 n g = Some (Inr (bCost, bPath, wCost, wPath, a))"
    and "1 < ITER cfg"
    and "0 < sum_list (run_costs cfg d H1 n (ITER cfg) (initial_state T g))"
  shows "length (run_costs cfg d H1 n (ITER cfg) (initial_state T g)) = K cfg * ITER cfg \<and>
         a = py_round (of_int (sum_list (run_costs cfg d H1 n (ITER cfg) (initial_state T g)))
                 / of_nat (K cfg) * of_nat (ITER cfg)) \<and>
         (of_int a :: rat) \<noteq>
           of_int (sum_list (run_costs cfg d H1 n (ITER cfg) (initial_state T g)))
             / of_nat (K cfg * ITER cfg)"
proof -
  let ?total = "sum_list (run_costs cfg d H1 n (ITER cfg) (initial_state T g))"
  obtain st where st: "aco_loop cfg d H1 n (ITER cfg) (initial_state T g) = Some (Inr st)"
      and k: "K cfg \<noteq> 0"
      and a: "a = py_round (of_int (avg st) / of_nat (K cfg) * of_nat (ITER cfg))"
    using ant_colony_optimisation_Inr [OF assms(1)] by blast
  have "avg st = ?total"
    using aco_loop_avg [OF st] by (simp add: initial_state_def)
  with a have a': "a = py_round (of_int ?total / of_nat (K cfg) * of_nat (ITER cfg))"
    by simp
  have "(of_int a :: rat) \<noteq> of_int ?total / of_nat (K cfg * ITER cfg)"
    unfolding a' using assms(3) k assms(2) by (intro scaled_total_not_mean) simp_all
  with a' run_costs_length [OF st] show ?thesis by simp
qed

theorem average_statistic_is_not_the_mean_witness:
  "ant_colony_optimisation (source_config\<lparr>K := 1, ITER := 2\<rparr>) [[0, 1], [1, 0]]
     [[Fin 0, Fin 1], [Fin 1, Fin 0]] [[Fin 0, Fin 5], [Fin 5, Fin 0]] 2
     \<lparr>starts = [0, 1], rands = [1 / 2, 1 / 2]\<rparr> = Some (Inr (2, [0, 1, 0], 10, [], 8)) \<and>
   (8 :: rat) \<noteq> of_int (sum_list [2, 2]) / of_nat (1 * 2)"
proof -
  let ?cfg = "source_config\<lparr>K := 1, ITER := 2\<rparr>"
  have i: "1 < ITER ?cfg" by simp
  have k: "K ?cfg = 1" "ITER ?cfg = 2" by simp_all
  have s: "0 < sum_list (run_costs ?cfg [[0, 1], [1, 0]] [[Fin 0, Fin 5], [Fin 5, Fin 0]] 2
      (ITER ?cfg) (initial_state [[Fin 0, Fin 1], [Fin 1, Fin 0]]
        \<lparr>starts = [0, 1], rands = [1 / 2, 1 / 2]\<rparr>))"
    using small_run_costs by simp
  from average_statistic_is_not_the_mean [OF small_run i s] small_run small_run_costs
  show ?thesis by (simp add: k)
qed

text \<open>
  A matrix of finite numbers, none negative, positive off the diagonal: the pheromone
  matrix while every entry off its diagonal is positive, and the heuristic matrix of a
  graph whose distances are positive and small enough not to round to zero.
\<close>

definition positive_off_diagonal :: "nat \<Rightarrow> npfloat matrix \<Rightarrow> bool" where
  "positive_off_diagonal n M =
     (square n M \<and>
      (\<forall>i<n. \<forall>j<n. \<exists>x. M ! i ! j = Fin x \<and> 0 \<le> x \<and> (i \<noteq> j \<longrightarrow> 0 < x)))"

section \<open>The shape of a path\<close>

lemma select_city_range:
  "select_city ps rand CP i = Some k \<Longrightarrow> i \<le> k \<and> k < i + length ps"
proof (induction ps arbitrary: CP i)
  case Nil
  then show ?case by simp
next
  case (Cons p ps)
  show ?case
  proof (cases "np_ge (np_add CP p) rand")
    case True
    with Cons.prems show ?thesis by (simp add: Let_def)
  next
    case False
    with Cons.prems have "select_city ps rand (np_add CP p) (Suc i) = Some k"
      by (simp add: Let_def)
    from Cons.IH [OF this] show ?thesis by simp
  qed
qed

lemma construct_path_shape:
  assumes "construct_path cfg T H n path currCity rs = Some (p, rs')"
    and "length path \<le> n" and "\<forall>v\<in>set path. v < n" and "path \<noteq> []"
  shows "length p = n \<and> (\<forall>v\<in>set p. v < n) \<and> hd p = hd path"
  using assms
proof (induction rs arbitrary: H path currCity)
  case Nil
  then show ?case by (simp split: if_splits)
next
  case (Cons r rs)
  show ?case
  proof (cases "length path = n")
    case True
    with Cons.prems show ?thesis by simp
  next
    case False
    let ?H = "zero_columns H path"
    let ?sel = "select_city (take n (transition cfg T ?H currCity)) (Fin r) (Fin 0) 0"
    show ?thesis
    proof (cases ?sel)
      case None
      with False Cons.prems(1)
      have "construct_path cfg T ?H n path currCity rs = Some (p, rs')"
        by (simp add: Let_def)
      from Cons.IH [OF this Cons.prems(2-4)] show ?thesis .
    next
      case (Some i)
      with False Cons.prems(1)
      have c: "construct_path cfg T ?H n (path @ [i]) i rs = Some (p, rs')"
        by (simp add: Let_def)
      have "i < n" using select_city_range [OF Some] by simp
      with False Cons.prems(2-4)
      have "length (path @ [i]) \<le> n" "\<forall>v\<in>set (path @ [i]). v < n" "path @ [i] \<noteq> []"
        by auto
      from Cons.IH [OF c this] Cons.prems(4) show ?thesis by simp
    qed
  qed
qed

lemma ant_path_shape:
  assumes "ant cfg T H1 n g = Some (Inr (path, g'))"
  shows "length path = n + 1 \<and> hd path = last path \<and> (\<forall>v\<in>set path. v < n)"
proof -
  from assms have n: "0 < n" by (auto simp: ant_def split: if_splits)
  from assms obtain s ss p rs where g: "starts g = s # ss"
      and c: "construct_path cfg T H1 n [s mod n] (s mod n) (rands g) = Some (p, rs)"
      and path: "path = p @ [s mod n]"
    by (auto simp: ant_def Let_def split: if_splits list.splits option.splits)
  have "length p = n \<and> (\<forall>v\<in>set p. v < n) \<and> hd p = hd [s mod n]"
    using n by (intro construct_path_shape [OF c]) auto
  with n path show ?thesis by (cases p) auto
qed

section \<open>An ant on positive matrices\<close>

lemma np_pow_Fin: "np_pow (Fin x) k = Fin (x ^ k)"
  by (induction k) simp_all

lemma np_sum_Fin: "np_sum (map Fin ws) = Fin (sum_list ws)"
proof -
  have "foldl np_add (Fin c) (map Fin ws) = Fin (c + sum_list ws)" for c
    by (induction ws arbitrary: c) (simp_all add: add.assoc)
  from this [of 0] show ?thesis by (simp add: np_sum_def)
qed

lemma sum_list_pos:
  fixes ws :: "rat list"
  assumes "\<forall>x\<in>set ws. 0 \<le> x" "w \<in> set ws" "0 < w"
  shows "0 < sum_list ws"
  using assms
proof (induction ws)
  case Nil
  then show ?case by simp
next
  case (Cons a ws)
  have "0 \<le> sum_list ws" using Cons.prems(1) by (intro sum_list_nonneg) simp
  moreover have "0 \<le> a" using Cons.prems(1) by simp
  ultimately show ?case using Cons by (cases "w = a") (auto intro: add_pos_nonneg add_nonneg_pos)
qed

lemma zero_columns_length [simp]: "length (zero_columns H path) = length H"
  by (simp add: zero_columns_def)

lemma zero_columns_nth:
  "i < length H \<Longrightarrow> j < length (H ! i) \<Longrightarrow>
   zero_columns H path ! i ! j = (if j \<in> set path then Fin 0 else H ! i ! j)"
  by (simp add: zero_columns_def fold_zero_nth)

lemma zero_columns_square: "square n H \<Longrightarrow> square n (zero_columns H path)"
  by (simp add: square_def list_all_length zero_columns_def)

text \<open>
  The first vertex at which the cumulative sum reaches a draw \<open>r\<close> above the sum so
  far has a positive probability.
\<close>

lemma select_city_Fin:
  assumes "\<forall>q\<in>set qs. 0 \<le> q" and "c < r" and "r \<le> c + sum_list qs"
  shows "\<exists>k<length qs. select_city (map Fin qs) (Fin r) (Fin c) i = Some (i + k) \<and> 0 < qs ! k"
  using assms
proof (induction qs arbitrary: c i)
  case Nil
  then show ?case by simp
next
  case (Cons q qs)
  show ?case
  proof (cases "r \<le> c + q")
    case True
    with Cons.prems(2) have "0 < q" by simp
    with True show ?thesis by (intro exI [of _ 0]) (simp add: Let_def)
  next
    case False
    then have "\<exists>k<length qs. select_city (map Fin qs) (Fin r) (Fin (c + q)) (Suc i) = Some (Suc i + k)
        \<and> 0 < qs ! k"
      using Cons.prems by (intro Cons.IH) (simp_all add: add.assoc)
    then obtain k where "k < length qs"
        "select_city (map Fin qs) (Fin r) (Fin (c + q)) (Suc i) = Some (Suc i + k)" "0 < qs ! k"
      by blast
    with False show ?thesis by (intro exI [of _ "Suc k"]) (simp add: Let_def)
  qed
qed

lemma unvisited_vertex:
  assumes "distinct path" "\<forall>v\<in>set path. v < n" "length path < n"
  shows "\<exists>j<n. j \<notin> set path"
proof (rule ccontr)
  assume "\<not> (\<exists>j<n. j \<notin> set path)"
  then have "{..<n} \<subseteq> set path" by auto
  then have "card {..<n} \<le> card (set path)" by (intro card_mono) simp_all
  with assms(3) distinct_card [OF assms(1)] show False by simp
qed

lemma sum_list_divide:
  fixes ws :: "rat list"
  shows "sum_list (map (\<lambda>w. w / s) ws) = sum_list ws / s"
  by (induction ws) (simp_all add: add_divide_distrib)

lemma desirability_weights:
  assumes T: "positive_off_diagonal n T" and H1: "positive_off_diagonal n H1"
    and H: "square n H" "\<forall>i<n. \<forall>j<n. j \<notin> set path \<longrightarrow> H ! i ! j = H1 ! i ! j"
    and beta: "0 < BETA cfg" and c: "c < n" "c \<in> set path"
  shows "\<exists>ws. desirability cfg T (zero_columns H path) c = map Fin ws \<and> length ws = n \<and>
           (\<forall>j<n. 0 \<le> ws ! j \<and> (0 < ws ! j \<longleftrightarrow> j \<notin> set path))"
proof -
  let ?H = "zero_columns H path"
  let ?N = "desirability cfg T ?H c"
  let ?val = "\<lambda>x. case x of Fin q \<Rightarrow> q | _ \<Rightarrow> (0 :: rat)"
  have sqT: "square n T" and sqH1: "square n H1"
    using T H1 by (simp_all add: positive_off_diagonal_def)
  have lT: "length (T ! c) = n" using sqT c(1) by (rule square_row)
  have lH: "length (?H ! c) = n"
    using zero_columns_square [OF H(1)] c(1) by (rule square_row)
  have len: "length ?N = n" by (simp add: desirability_def lT lH)
  have nth: "?N ! j = np_mul (np_pow (T ! c ! j) (ALPHA cfg)) (np_pow (?H ! c ! j) (BETA cfg))"
    if "j < n" for j
    using that by (simp add: desirability_def lT lH)
  have Hnth: "?H ! c ! j = (if j \<in> set path then Fin 0 else H1 ! c ! j)" if "j < n" for j
  proof -
    have "c < length H" "j < length (H ! c)"
      using H(1) c(1) that by (simp_all add: square_def list_all_length)
    then show ?thesis using H(2) c(1) that by (simp add: zero_columns_nth)
  qed
  have entry: "\<exists>w. ?N ! j = Fin w \<and> 0 \<le> w \<and> (0 < w \<longleftrightarrow> j \<notin> set path)" if j: "j < n" for j
  proof -
    obtain t where t: "T ! c ! j = Fin t" "0 \<le> t" "c \<noteq> j \<longrightarrow> 0 < t"
      using T c(1) j unfolding positive_off_diagonal_def by blast
    show ?thesis
    proof (cases "j \<in> set path")
      case True
      then have "?N ! j = Fin 0"
        using beta by (simp add: nth [OF j] Hnth [OF j] t(1) np_pow_Fin)
      with True show ?thesis by simp
    next
      case False
      then have ne: "c \<noteq> j" using c(2) by auto
      obtain h where h: "H1 ! c ! j = Fin h" "c \<noteq> j \<longrightarrow> 0 < h"
        using H1 c(1) j unfolding positive_off_diagonal_def by blast
      have "?N ! j = Fin (t ^ ALPHA cfg * h ^ BETA cfg)"
        using False by (simp add: nth [OF j] Hnth [OF j] t(1) h(1) np_pow_Fin)
      moreover have "0 < t ^ ALPHA cfg * h ^ BETA cfg"
        using ne t(3) h(2) by simp
      ultimately show ?thesis using False by simp
    qed
  qed
  let ?ws = "map (\<lambda>j. ?val (?N ! j)) [0..<n]"
  have "?N = map Fin ?ws"
  proof (rule nth_equalityI)
    show "length ?N = length (map Fin ?ws)" by (simp add: len)
  next
    fix j assume "j < length ?N"
    then have j: "j < n" by (simp add: len)
    from entry [OF j] obtain w where "?N ! j = Fin w" by blast
    with j show "?N ! j = map Fin ?ws ! j" by simp
  qed
  moreover have "length ?ws = n" by simp
  moreover have "\<forall>j<n. 0 \<le> ?ws ! j \<and> (0 < ?ws ! j \<longleftrightarrow> j \<notin> set path)"
  proof (intro allI impI)
    fix j assume j: "j < n"
    from entry [OF j] obtain w where "?N ! j = Fin w" "0 \<le> w" "0 < w \<longleftrightarrow> j \<notin> set path"
      by blast
    with j show "0 \<le> ?ws ! j \<and> (0 < ?ws ! j \<longleftrightarrow> j \<notin> set path)" by simp
  qed
  ultimately show ?thesis by blast
qed

lemma select_city_unvisited:
  assumes T: "positive_off_diagonal n T" and H1: "positive_off_diagonal n H1"
    and H: "square n H" "\<forall>i<n. \<forall>j<n. j \<notin> set path \<longrightarrow> H ! i ! j = H1 ! i ! j"
    and beta: "0 < BETA cfg" and c: "c < n" "c \<in> set path"
    and path: "distinct path" "\<forall>v\<in>set path. v < n" "length path < n"
    and r: "0 < r" "r < 1"
  shows "\<exists>k<n. k \<notin> set path \<and>
           select_city (take n (transition cfg T (zero_columns H path) c)) (Fin r) (Fin 0) 0
             = Some k"
proof -
  let ?N = "desirability cfg T (zero_columns H path) c"
  obtain ws where ws: "?N = map Fin ws" "length ws = n"
      "\<forall>j<n. 0 \<le> ws ! j \<and> (0 < ws ! j \<longleftrightarrow> j \<notin> set path)"
    using desirability_weights [OF T H1 H beta c] by blast
  obtain j where j: "j < n" "j \<notin> set path"
    using unvisited_vertex [OF path] by blast
  let ?s = "sum_list ws"
  have nonneg: "\<forall>x\<in>set ws. 0 \<le> x"
    using ws(2,3) by (auto simp: in_set_conv_nth)
  have "ws ! j \<in> set ws" "0 < ws ! j" using j ws(2,3) by simp_all
  with nonneg have s: "0 < ?s" by (rule sum_list_pos)
  let ?qs = "map (\<lambda>w. w / ?s) ws"
  have P: "transition cfg T (zero_columns H path) c = map Fin ?qs"
    using s by (simp add: transition_def Let_def ws(1) np_sum_Fin)
  have "\<exists>k<length ?qs. select_city (map Fin ?qs) (Fin r) (Fin 0) 0 = Some (0 + k) \<and> 0 < ?qs ! k"
  proof (rule select_city_Fin)
    show "\<forall>q\<in>set ?qs. 0 \<le> q" using nonneg s by auto
    show "0 < r" by (rule r)
    show "r \<le> 0 + sum_list ?qs" using s r(2) by (simp add: sum_list_divide)
  qed
  then obtain k where k: "k < n" "select_city (map Fin ?qs) (Fin r) (Fin 0) 0 = Some k"
      "0 < ?qs ! k"
    using ws(2) by auto
  from k(1,3) s ws(2) have "0 < ws ! k" by (simp add: zero_less_divide_iff)
  then have "k \<notin> set path" using ws(3) k(1) by blast
  with k(1,2) show ?thesis using ws(2) by (auto simp: P)
qed

lemma construct_path_positive:
  assumes T: "positive_off_diagonal n T" and H1: "positive_off_diagonal n H1"
    and beta: "0 < BETA cfg"
    and H: "square n H" "\<forall>i<n. \<forall>j<n. j \<notin> set path \<longrightarrow> H ! i ! j = H1 ! i ! j"
    and c: "c \<in> set path"
    and path: "distinct path" "\<forall>v\<in>set path. v < n" "length path \<le> n"
    and draws: "n - length path \<le> length rs" "\<forall>r\<in>set rs. 0 < r \<and> r < 1"
  shows "\<exists>p. construct_path cfg T H n path c rs = Some (p, drop (n - length path) rs) \<and>
           distinct p \<and> length p = n \<and> (\<forall>v\<in>set p. v < n)"
  using H c path draws
proof (induction rs arbitrary: H path c)
  case Nil
  then show ?case by simp
next
  case (Cons r rs)
  show ?case
  proof (cases "length path = n")
    case True
    with Cons.prems show ?thesis by simp
  next
    case False
    with Cons.prems have lt: "length path < n" by simp
    have cn: "c < n" using Cons.prems(3,5) by blast
    have r: "0 < r" "r < 1" using Cons.prems(8) by simp_all
    let ?H = "zero_columns H path"
    obtain k where k: "k < n" "k \<notin> set path"
        "select_city (take n (transition cfg T ?H c)) (Fin r) (Fin 0) 0 = Some k"
      using select_city_unvisited [OF T H1 Cons.prems(1,2) beta cn Cons.prems(3,4,5) lt r]
      by blast
    have step: "construct_path cfg T H n path c (r # rs) =
        construct_path cfg T ?H n (path @ [k]) k rs"
      using False k(3) by (simp add: Let_def)
    have sq: "square n ?H" using Cons.prems(1) by (rule zero_columns_square)
    have inv: "\<forall>i<n. \<forall>j<n. j \<notin> set (path @ [k]) \<longrightarrow> ?H ! i ! j = H1 ! i ! j"
    proof (intro allI impI)
      fix i j assume ij: "i < n" "j < n" "j \<notin> set (path @ [k])"
      have "i < length H" "j < length (H ! i)"
        using Cons.prems(1) ij by (simp_all add: square_def list_all_length)
      then show "?H ! i ! j = H1 ! i ! j"
        using ij Cons.prems(2) by (simp add: zero_columns_nth)
    qed
    have "\<exists>p. construct_path cfg T ?H n (path @ [k]) k rs =
          Some (p, drop (n - length (path @ [k])) rs) \<and>
        distinct p \<and> length p = n \<and> (\<forall>v\<in>set p. v < n)"
      using k lt Cons.prems by (intro Cons.IH [OF sq inv]) auto
    moreover have "drop (n - length (path @ [k])) rs = drop (n - length path) (r # rs)"
      using lt by (simp add: drop_Cons' )
    ultimately show ?thesis using step by simp
  qed
qed

text \<open>
  On matrices of finite numbers that are positive off the diagonal, with a positive
  exponent \<^verbatim>\<open>BETA\<close> and draws strictly between \<open>0\<close> and \<open>1\<close>, an ant takes one draw for
  each further vertex and returns a Hamiltonian cycle.
\<close>

lemma ant_hamiltonian:
  assumes "positive_off_diagonal n T" and "positive_off_diagonal n H1" and "0 < BETA cfg"
    and "0 < n" and "starts g = s # ss" and "n - 1 \<le> length (rands g)"
    and "\<forall>r\<in>set (rands g). 0 < r \<and> r < 1"
  shows "\<exists>p. ant cfg T H1 n g =
             Some (Inr (p @ [s mod n], \<lparr>starts = ss, rands = drop (n - 1) (rands g)\<rparr>)) \<and>
           distinct p \<and> set p = {..<n} \<and> hd p = s mod n"
proof -
  have sq: "square n H1" using assms(2) by (simp add: positive_off_diagonal_def)
  have "\<exists>p. construct_path cfg T H1 n [s mod n] (s mod n) (rands g) =
          Some (p, drop (n - length [s mod n]) (rands g)) \<and>
        distinct p \<and> length p = n \<and> (\<forall>v\<in>set p. v < n)"
    using assms(4,6,7) by (intro construct_path_positive [OF assms(1-3) sq]) auto
  then obtain p where p: "construct_path cfg T H1 n [s mod n] (s mod n) (rands g) =
      Some (p, drop (n - 1) (rands g))" "distinct p" "length p = n" "\<forall>v\<in>set p. v < n"
    by auto
  have "hd p = hd [s mod n]"
    using assms(4) by (intro construct_path_shape [OF p(1), THEN conjunct2, THEN conjunct2]) auto
  moreover have "set p = {..<n}"
  proof (rule card_subset_eq)
    show "finite {..<n}" by simp
    show "set p \<subseteq> {..<n}" using p(4) by auto
    show "card (set p) = card {..<n}" using distinct_card [OF p(2)] p(3) by simp
  qed
  ultimately show ?thesis
    using assms(4,5) p by (simp add: ant_def)
qed

section \<open>Entries the deposits leave alone\<close>

lemma deposit_edges_frame:
  assumes "\<forall>j. j + 1 < length path \<longrightarrow> \<not> (path ! j = u \<and> path ! (j + 1) = v)"
  shows "fst (deposit_edges cfg path delta cost elite js T) ! u ! v = T ! u ! v"
proof (induction js arbitrary: T)
  case Nil
  then show ?case by simp
next
  case (Cons j js)
  show ?case
  proof (cases "j + 1 < length path \<and> path ! j < length T \<and>
         path ! (j + 1) < length (T ! (path ! j))")
    case False
    then show ?thesis by auto
  next
    case True
    let ?a = "path ! j" and ?b = "path ! (j + 1)"
    let ?T1 = "store2 T ?a ?b (np_add (T ! ?a ! ?b) (Fin delta))"
    let ?T2 = "if elite \<and> ELITIST cfg
               then store2 ?T1 ?a ?b (np_add (?T1 ! ?a ! ?b) (Fin (of_int cost * ELITISTFACTOR cfg)))
               else ?T1"
    have ne: "\<not> (?a = u \<and> ?b = v)" using True assms by blast
    have t1: "?T1 ! u ! v = T ! u ! v"
      using True ne by (auto simp: store2_get)
    have t2: "?T2 ! u ! v = T ! u ! v"
      using True ne t1 by (auto simp: store2_get)
    have "deposit_edges cfg path delta cost elite (j # js) T =
        deposit_edges cfg path delta cost elite js ?T2"
      using True by (simp add: Let_def)
    then show ?thesis using Cons.IH [of ?T2] t2 by simp
  qed
qed

lemma deposit_ants_frame:
  assumes "\<forall>p\<in>set allPaths. \<forall>j. j + 1 < length p \<longrightarrow> \<not> (p ! j = u \<and> p ! (j + 1) = v)"
    and "\<forall>i\<in>set is. i < length allPaths"
  shows "fst (deposit_ants cfg allPaths pathCosts nv el is T) ! u ! v = T ! u ! v"
  using assms(2)
proof (induction "is" arbitrary: T)
  case Nil
  then show ?case by simp
next
  case (Cons i "is")
  let ?r = "deposit_edges cfg (allPaths ! i) (1 / of_int (pathCosts ! i)) (pathCosts ! i)
                (i \<in> set el) [0..<nv - 1] T"
  have "allPaths ! i \<in> set allPaths" using Cons.prems by simp
  then have f: "fst ?r ! u ! v = T ! u ! v"
    using assms(1) by (intro deposit_edges_frame) blast
  have "fst (deposit_ants cfg allPaths pathCosts nv el is (fst ?r)) ! u ! v = fst ?r ! u ! v"
    using Cons.prems by (intro Cons.IH) simp
  with f show ?case
    by (cases ?r) (auto split: option.splits)
qed

text \<open>
  An entry of \<^verbatim>\<open>T\<close> that is the edge of no path ends at \<open>1 - RHO\<close> times its value,
  whether the call returns or raises.
\<close>

lemma update_pheremone_frame:
  assumes "u < length T" and "v < length (T ! u)"
    and "\<forall>p\<in>set allPaths. \<forall>j. j + 1 < length p \<longrightarrow> \<not> (p ! j = u \<and> p ! (j + 1) = v)"
  shows "fst (update_pheremone cfg T allPaths pathCosts numVertices elitistIndex) ! u ! v =
           np_mul (Fin (1 - RHO cfg)) (T ! u ! v)"
proof -
  have "fst (deposit_ants cfg allPaths pathCosts numVertices elitistIndex [0..<length allPaths]
      (evaporate cfg T)) ! u ! v = evaporate cfg T ! u ! v"
    using assms(3) by (intro deposit_ants_frame) simp_all
  then show ?thesis using assms(1,2) by (simp add: update_pheremone_def evaporate_def)
qed

section \<open>Elitism\<close>

lemma deposit_edges_no_elitism:
  "\<not> ELITIST cfg \<Longrightarrow>
   deposit_edges cfg path delta cost elite js T = deposit_edges cfg path delta cost False js T"
  by (induction js arbitrary: T) (simp_all add: Let_def)

lemma deposit_ants_no_elitism:
  "\<not> ELITIST cfg \<Longrightarrow>
   deposit_ants cfg allPaths pathCosts nv el is T = deposit_ants cfg allPaths pathCosts nv [] is T"
proof (induction "is" arbitrary: T)
  case Nil
  then show ?case by simp
next
  case (Cons i "is")
  then show ?case
    using deposit_edges_no_elitism [of cfg "allPaths ! i" _ _ "i \<in> set el"]
    by (simp split: prod.splits option.splits)
qed

text \<open>With \<^verbatim>\<open>ELITIST\<close> off, the list of elitist ants changes nothing: no bonus is added.\<close>

lemma update_pheremone_no_elitism:
  "\<not> ELITIST cfg \<Longrightarrow>
   update_pheremone cfg T allPaths pathCosts numVertices elitistIndex =
     update_pheremone cfg T allPaths pathCosts numVertices []"
  by (simp add: update_pheremone_def deposit_ants_no_elitism [of cfg _ _ _ elitistIndex])

text \<open>
  The elitist ants of lines 220 and 221, for a count \<^verbatim>\<open>round(ELITISTFACTOR * K)\<close> that
  is not negative: that many ants (all of them if there are fewer), each of a cost no
  higher than the cost of any ant left out.
\<close>

lemma elitist_indices_lowest:
  assumes "0 \<le> py_round (ELITISTFACTOR cfg * of_nat (K cfg))"
  shows "distinct (elitist_indices cfg pathCosts) \<and>
         set (elitist_indices cfg pathCosts) \<subseteq> {..<length pathCosts} \<and>
         length (elitist_indices cfg pathCosts) =
           min (nat (py_round (ELITISTFACTOR cfg * of_nat (K cfg)))) (length pathCosts) \<and>
         (\<forall>i\<in>set (elitist_indices cfg pathCosts). \<forall>j<length pathCosts.
            j \<notin> set (elitist_indices cfg pathCosts) \<longrightarrow> pathCosts ! i \<le> pathCosts ! j)"
proof -
  let ?f = "\<lambda>i. pathCosts ! i"
  let ?xs = "sort_key ?f [0..<length pathCosts]"
  let ?m = "nat (py_round (ELITISTFACTOR cfg * of_nat (K cfg)))"
  have el: "elitist_indices cfg pathCosts = take ?m ?xs"
    using assms by (simp add: elitist_indices_def py_take_def)
  have d: "distinct ?xs" by simp
  have s: "set ?xs = {..<length pathCosts}" by auto
  have "sorted (map ?f (take ?m ?xs @ drop ?m ?xs))" by simp
  then have le: "\<forall>i\<in>set (take ?m ?xs). \<forall>j\<in>set (drop ?m ?xs). ?f i \<le> ?f j"
    unfolding map_append sorted_append by auto
  have "\<forall>i\<in>set (take ?m ?xs). \<forall>j<length pathCosts. j \<notin> set (take ?m ?xs) \<longrightarrow> ?f i \<le> ?f j"
  proof (intro ballI allI impI)
    fix i j assume i: "i \<in> set (take ?m ?xs)" and j: "j < length pathCosts" "j \<notin> set (take ?m ?xs)"
    have "j \<in> set ?xs" using j(1) s by simp
    moreover have "set ?xs = set (take ?m ?xs) \<union> set (drop ?m ?xs)"
      by (metis append_take_drop_id set_append)
    ultimately have "j \<in> set (drop ?m ?xs)" using j(2) by blast
    with le i show "?f i \<le> ?f j" by blast
  qed
  moreover have "distinct (take ?m ?xs)" using d by (rule distinct_take)
  moreover have "set (take ?m ?xs) \<subseteq> {..<length pathCosts}"
    using s set_take_subset [of ?m ?xs] by blast
  moreover have "length (take ?m ?xs) = min ?m (length pathCosts)" by simp
  ultimately show ?thesis unfolding el by (simp add: min.commute)
qed

section \<open>The best and the worst tour\<close>

lemma sort_key_hd:
  assumes "xs \<noteq> []"
  shows "f (hd (sort_key f xs)) = Min (f ` set xs) \<and>
         hd (sort_key f xs) = hd (filter (\<lambda>y. f y = Min (f ` set xs)) xs)"
proof -
  let ?ys = "sort_key f xs"
  have ne: "?ys \<noteq> []" using assms by (metis length_0_conv length_sort)
  then obtain y ys where ys: "?ys = y # ys" by (cases ?ys) auto
  have "sorted (map f ?ys)" by simp
  then have le: "\<forall>z\<in>set ?ys. f y \<le> f z" unfolding ys by auto
  have mem: "y \<in> set xs" using ys by (metis list.set_intros(1) set_sort)
  have m: "f y = Min (f ` set xs)"
  proof (rule Min_eqI [symmetric])
    show "finite (f ` set xs)" by simp
    show "f y \<in> f ` set xs" using mem by simp
    show "\<And>v. v \<in> f ` set xs \<Longrightarrow> f y \<le> v" using le by auto
  qed
  have "filter (\<lambda>z. f z = f y) xs = filter (\<lambda>z. f z = f y) ?ys"
    by (rule sort_key_stable [symmetric])
  also have "\<dots> = y # filter (\<lambda>z. f z = f y) ys" unfolding ys by simp
  finally have "hd (filter (\<lambda>z. f z = f y) xs) = y" by simp
  with m ys show ?thesis by simp
qed

lemma sort_key_last:
  assumes "xs \<noteq> []"
  shows "f (last (sort_key f xs)) = Max (f ` set xs) \<and>
         last (sort_key f xs) = last (filter (\<lambda>y. f y = Max (f ` set xs)) xs)"
proof -
  let ?ys = "sort_key f xs"
  have ne: "?ys \<noteq> []" using assms by (metis length_0_conv length_sort)
  let ?l = "last ?ys"
  have split: "butlast ?ys @ [?l] = ?ys" using ne by (rule append_butlast_last_id)
  have "sorted (map f (butlast ?ys @ [?l]))" by (simp only: split sorted_sort_key)
  then have le: "\<forall>z\<in>set (butlast ?ys). f z \<le> f ?l"
    unfolding map_append sorted_append by simp
  have le': "\<forall>z\<in>set ?ys. f z \<le> f ?l"
  proof
    fix z assume "z \<in> set ?ys"
    then have "z \<in> set (butlast ?ys @ [?l])" by (simp only: split)
    with le show "f z \<le> f ?l" by auto
  qed
  have mem: "?l \<in> set xs" using ne by (metis last_in_set set_sort)
  have m: "f ?l = Max (f ` set xs)"
  proof (rule Max_eqI [symmetric])
    show "finite (f ` set xs)" by simp
    show "f ?l \<in> f ` set xs" using mem by simp
    show "\<And>v. v \<in> f ` set xs \<Longrightarrow> v \<le> f ?l" using le' by auto
  qed
  have "filter (\<lambda>z. f z = f ?l) xs = filter (\<lambda>z. f z = f ?l) ?ys"
    by (rule sort_key_stable [symmetric])
  also have "\<dots> = filter (\<lambda>z. f z = f ?l) (butlast ?ys @ [?l])"
    by (simp only: split)
  also have "\<dots> = filter (\<lambda>z. f z = f ?l) (butlast ?ys) @ [?l]"
    by simp
  finally have "last (filter (\<lambda>z. f z = f ?l) xs) = ?l" by simp
  with m show ?thesis by simp
qed


lemma tracker_update_fields:
  assumes "st' =
      (let st1 = (if b < bestPathCost st then st\<lparr>bestPathCost := b, bestPath := bp\<rparr> else st)
       in if worsePathCost st1 < w then st1\<lparr>worsePathCost := w, worstPath := wp\<rparr> else st1)"
  shows "bestPathCost st' = min (bestPathCost st) b \<and>
         worsePathCost st' = max (worsePathCost st) w \<and>
         bestPath st' = (if b < bestPathCost st then bp else bestPath st) \<and>
         worstPath st' = (if worsePathCost st < w then wp else worstPath st)"
  using assms by (simp add: Let_def min_def max_def)

lemma track_extremes_rule:
  assumes "track_extremes pathCosts allPaths st = Inr st'"
    and "length pathCosts = length allPaths"
  shows "pathCosts \<noteq> [] \<and>
         bestPathCost st' = min (bestPathCost st) (Min (set pathCosts)) \<and>
         worsePathCost st' = max (worsePathCost st) (Max (set pathCosts)) \<and>
         bestPath st' =
           (if Min (set pathCosts) < bestPathCost st
            then snd (hd (filter (\<lambda>p. fst p = Min (set pathCosts)) (zip pathCosts allPaths)))
            else bestPath st) \<and>
         worstPath st' =
           (if worsePathCost st < Max (set pathCosts)
            then snd (last (filter (\<lambda>p. fst p = Max (set pathCosts)) (zip pathCosts allPaths)))
            else worstPath st)"
proof -
  let ?ps = "zip pathCosts allPaths"
  let ?sp = "sort_key fst ?ps"
  have sp: "?sp \<noteq> []"
    using assms(1) by (auto simp: track_extremes_def Let_def split: if_splits)
  then have ps: "?ps \<noteq> []" by auto
  then have ne: "pathCosts \<noteq> []" by auto
  have "map fst ?ps = pathCosts" using assms(2) by simp
  then have img: "fst ` set ?ps = set pathCosts" by (metis set_map)
  have h: "fst (hd ?sp) = Min (set pathCosts)"
      "hd ?sp = hd (filter (\<lambda>p. fst p = Min (set pathCosts)) ?ps)"
    using sort_key_hd [OF ps, of fst] unfolding img by blast+
  have l: "fst (last ?sp) = Max (set pathCosts)"
      "last ?sp = last (filter (\<lambda>p. fst p = Max (set pathCosts)) ?ps)"
    using sort_key_last [OF ps, of fst] unfolding img by blast+
  have "st' =
      (let st1 = (if fst (hd ?sp) < bestPathCost st
                  then st\<lparr>bestPathCost := fst (hd ?sp), bestPath := snd (hd ?sp)\<rparr>
                  else st)
       in if worsePathCost st1 < fst (last ?sp)
          then st1\<lparr>worsePathCost := fst (last ?sp), worstPath := snd (last ?sp)\<rparr>
          else st1)"
    using assms(1) sp by (simp add: track_extremes_def Let_def)
  then have "st' =
      (let st1 = (if Min (set pathCosts) < bestPathCost st
                  then st\<lparr>bestPathCost := Min (set pathCosts),
                          bestPath := snd (hd (filter (\<lambda>p. fst p = Min (set pathCosts)) ?ps))\<rparr>
                  else st)
       in if worsePathCost st1 < Max (set pathCosts)
          then st1\<lparr>worsePathCost := Max (set pathCosts),
                   worstPath := snd (last (filter (\<lambda>p. fst p = Max (set pathCosts)) ?ps))\<rparr>
          else st1)"
    unfolding h(1) l(1) unfolding h(2) l(2) .
  from tracker_update_fields [OF this] ne show ?thesis by blast
qed

lemma path_costs_zip:
  "path_costs d paths = Inr cs \<Longrightarrow> (c, p) \<in> set (zip cs paths) \<Longrightarrow>
   calculate_path_cost d p = Inr c"
proof (induction paths arbitrary: cs)
  case Nil
  then show ?case by simp
next
  case (Cons q paths)
  then obtain c0 cs0 where "calculate_path_cost d q = Inr c0" "path_costs d paths = Inr cs0"
      "cs = c0 # cs0"
    by (auto split: sum.splits)
  with Cons show ?case by auto
qed

lemma tours_Inr:
  assumes "tours cfg d H1 n st = Some (Inr (allPaths, pathCosts, g))"
  shows "path_costs d allPaths = Inr pathCosts \<and> length pathCosts = length allPaths \<and>
         length allPaths = K cfg"
proof -
  from assms obtain g1 where c: "colony cfg (pheromone st) H1 n (K cfg) [] (generator st)
        = Some (Inr (allPaths, g1))" and p: "path_costs d allPaths = Inr pathCosts"
    by (auto simp: tours_def split: option.splits sum.splits)
  from colony_length [OF c] path_costs_length [OF p] p show ?thesis by simp
qed

lemma extreme_pair_cost:
  assumes "path_costs d allPaths = Inr pathCosts" and "m \<in> set pathCosts"
    and "length pathCosts = length allPaths"
  shows "calculate_path_cost d (snd (hd (filter (\<lambda>p. fst p = m) (zip pathCosts allPaths))))
           = Inr m \<and>
         calculate_path_cost d (snd (last (filter (\<lambda>p. fst p = m) (zip pathCosts allPaths))))
           = Inr m"
proof -
  let ?ps = "zip pathCosts allPaths"
  let ?fs = "filter (\<lambda>p. fst p = m) ?ps"
  have "m \<in> set (map fst ?ps)" using assms(2,3) by simp
  then obtain q where "q \<in> set ?ps" "fst q = m" by auto
  then have ne: "?fs \<noteq> []" by (auto simp: filter_empty_conv)
  have mem: "hd ?fs \<in> set ?fs" "last ?fs \<in> set ?fs"
    by (rule hd_in_set [OF ne], rule last_in_set [OF ne])
  have sub: "\<And>q. q \<in> set ?fs \<Longrightarrow> q \<in> set ?ps \<and> fst q = m" by simp
  have "hd ?fs \<in> set ?ps \<and> fst (hd ?fs) = m" "last ?fs \<in> set ?ps \<and> fst (last ?fs) = m"
    using sub [OF mem(1)] sub [OF mem(2)] by blast+
  then have "(m, snd (hd ?fs)) \<in> set ?ps" "(m, snd (last ?fs)) \<in> set ?ps"
    by (metis prod.collapse)+
  then show ?thesis using path_costs_zip [OF assms(1)] by blast
qed

lemma iteration_rule:
  assumes "tours cfg d H1 n st = Some (Inr (allPaths, pathCosts, g'))"
    and "iteration cfg d H1 n st = Some (Inr st')"
  shows "pathCosts \<noteq> [] \<and>
         bestPathCost st' = min (bestPathCost st) (Min (set pathCosts)) \<and>
         worsePathCost st' = max (worsePathCost st) (Max (set pathCosts)) \<and>
         bestPath st' =
           (if Min (set pathCosts) < bestPathCost st
            then snd (hd (filter (\<lambda>p. fst p = Min (set pathCosts)) (zip pathCosts allPaths)))
            else bestPath st) \<and>
         worstPath st' =
           (if worsePathCost st < Max (set pathCosts)
            then snd (last (filter (\<lambda>p. fst p = Max (set pathCosts)) (zip pathCosts allPaths)))
            else worstPath st)"
proof -
  obtain T' where tr: "track_extremes pathCosts allPaths
       (st\<lparr>pheromone := T', generator := g', avg := avg st + sum_list pathCosts\<rparr>) = Inr st'"
    using iteration_Inr [OF assms(2)] assms(1) by auto
  have len: "length pathCosts = length allPaths"
    using tours_Inr [OF assms(1)] by simp
  from track_extremes_rule [OF tr len] show ?thesis by simp
qed

lemma Max_insert_max:
  fixes w :: int
  assumes "finite A" "A \<noteq> {}" "finite R"
  shows "Max (insert (max w (Max A)) R) = Max (insert w (A \<union> R))"
proof -
  have m: "max w (Max A) = Max (insert w A)" using assms(1,2) by simp
  show ?thesis
  proof (cases "R = {}")
    case True
    then show ?thesis using m by simp
  next
    case False
    have "Max (insert (Max (insert w A)) R) = max (Max (insert w A)) (Max R)"
      using assms(3) False by simp
    also have "\<dots> = Max (insert w A \<union> R)"
      using assms False by (intro Max_Un [symmetric]) simp_all
    finally show ?thesis using m by simp
  qed
qed

lemma Min_insert_min:
  fixes b :: int
  assumes "finite A" "A \<noteq> {}" "finite R"
  shows "Min (insert (min b (Min A)) R) = Min (insert b (A \<union> R))"
proof -
  have m: "min b (Min A) = Min (insert b A)" using assms(1,2) by simp
  show ?thesis
  proof (cases "R = {}")
    case True
    then show ?thesis using m by simp
  next
    case False
    have "Min (insert (Min (insert b A)) R) = min (Min (insert b A)) (Min R)"
      using assms(3) False by simp
    also have "\<dots> = Min (insert b A \<union> R)"
      using assms False by (intro Min_Un [symmetric]) simp_all
    finally show ?thesis using m by simp
  qed
qed

lemma aco_loop_Suc_Inr:
  assumes "aco_loop cfg d H1 n (Suc x) st = Some (Inr st')"
  shows "\<exists>st1 allPaths pathCosts g'.
           iteration cfg d H1 n st = Some (Inr st1) \<and>
           aco_loop cfg d H1 n x st1 = Some (Inr st') \<and>
           tours cfg d H1 n st = Some (Inr (allPaths, pathCosts, g')) \<and>
           run_costs cfg d H1 n (Suc x) st = pathCosts @ run_costs cfg d H1 n x st1"
proof -
  from assms obtain st1 where s1: "iteration cfg d H1 n st = Some (Inr st1)"
      and s2: "aco_loop cfg d H1 n x st1 = Some (Inr st')"
    by (auto split: option.splits sum.splits)
  obtain allPaths pathCosts g' where t: "tours cfg d H1 n st = Some (Inr (allPaths, pathCosts, g'))"
    using iteration_Inr [OF s1] by blast
  then have "run_costs cfg d H1 n (Suc x) st = pathCosts @ run_costs cfg d H1 n x st1"
    using s1 by (simp add: iteration_costs_def)
  with s1 s2 t show ?thesis by blast
qed

lemma aco_loop_extreme_costs:
  "aco_loop cfg d H1 n x st = Some (Inr st') \<Longrightarrow>
   bestPathCost st' = Min (insert (bestPathCost st) (set (run_costs cfg d H1 n x st))) \<and>
   worsePathCost st' = Max (insert (worsePathCost st) (set (run_costs cfg d H1 n x st)))"
proof (induction x arbitrary: st)
  case 0
  then show ?case by simp
next
  case (Suc x)
  obtain st1 allPaths pathCosts g' where s1: "iteration cfg d H1 n st = Some (Inr st1)"
      and s2: "aco_loop cfg d H1 n x st1 = Some (Inr st')"
      and t: "tours cfg d H1 n st = Some (Inr (allPaths, pathCosts, g'))"
      and rc: "run_costs cfg d H1 n (Suc x) st = pathCosts @ run_costs cfg d H1 n x st1"
    using aco_loop_Suc_Inr [OF Suc.prems] by blast
  let ?R = "set (run_costs cfg d H1 n x st1)"
  have r: "pathCosts \<noteq> []"
      "bestPathCost st1 = min (bestPathCost st) (Min (set pathCosts))"
      "worsePathCost st1 = max (worsePathCost st) (Max (set pathCosts))"
    using iteration_rule [OF t s1] by simp_all
  have ne: "set pathCosts \<noteq> {}" using r(1) by simp
  have "bestPathCost st' = Min (insert (min (bestPathCost st) (Min (set pathCosts))) ?R)"
    using Suc.IH [OF s2] r(2) by simp
  also have "\<dots> = Min (insert (bestPathCost st) (set pathCosts \<union> ?R))"
    using ne by (intro Min_insert_min) simp_all
  finally have b: "bestPathCost st' = Min (insert (bestPathCost st) (set pathCosts \<union> ?R))" .
  have "worsePathCost st' = Max (insert (max (worsePathCost st) (Max (set pathCosts))) ?R)"
    using Suc.IH [OF s2] r(3) by simp
  also have "\<dots> = Max (insert (worsePathCost st) (set pathCosts \<union> ?R))"
    using ne by (intro Max_insert_max) simp_all
  finally have w: "worsePathCost st' = Max (insert (worsePathCost st) (set pathCosts \<union> ?R))" .
  from b w show ?case unfolding rc by simp
qed

lemma aco_loop_worst_path:
  "aco_loop cfg d H1 n x st = Some (Inr st') \<Longrightarrow>
   (worsePathCost st' = worsePathCost st \<and> worstPath st' = worstPath st) \<or>
   calculate_path_cost d (worstPath st') = Inr (worsePathCost st')"
proof (induction x arbitrary: st)
  case 0
  then show ?case by simp
next
  case (Suc x)
  obtain st1 allPaths pathCosts g' where s1: "iteration cfg d H1 n st = Some (Inr st1)"
      and s2: "aco_loop cfg d H1 n x st1 = Some (Inr st')"
      and t: "tours cfg d H1 n st = Some (Inr (allPaths, pathCosts, g'))"
    using aco_loop_Suc_Inr [OF Suc.prems] by blast
  let ?M = "Max (set pathCosts)"
  have r: "pathCosts \<noteq> []" "worsePathCost st1 = max (worsePathCost st) ?M"
      "worstPath st1 = (if worsePathCost st < ?M
         then snd (last (filter (\<lambda>p. fst p = ?M) (zip pathCosts allPaths)))
         else worstPath st)"
    using iteration_rule [OF t s1] by simp_all
  have pc: "path_costs d allPaths = Inr pathCosts" "length pathCosts = length allPaths"
    using tours_Inr [OF t] by simp_all
  have "?M \<in> set pathCosts" using r(1) by (intro Max_in) simp_all
  from extreme_pair_cost [OF pc(1) this pc(2)]
  have cost: "calculate_path_cost d (snd (last (filter (\<lambda>p. fst p = ?M) (zip pathCosts allPaths))))
      = Inr ?M" by blast
  show ?case
  proof (cases "worsePathCost st < ?M")
    case True
    then have "calculate_path_cost d (worstPath st1) = Inr (worsePathCost st1)"
      using r(2,3) cost by (simp add: max_def)
    with Suc.IH [OF s2] show ?thesis by auto
  next
    case False
    then have "worsePathCost st1 = worsePathCost st" "worstPath st1 = worstPath st"
      using r(2,3) by (simp_all add: max_def)
    with Suc.IH [OF s2] show ?thesis by auto
  qed
qed

lemma aco_loop_best_path:
  "aco_loop cfg d H1 n x st = Some (Inr st') \<Longrightarrow>
   (bestPathCost st' = bestPathCost st \<and> bestPath st' = bestPath st) \<or>
   calculate_path_cost d (bestPath st') = Inr (bestPathCost st')"
proof (induction x arbitrary: st)
  case 0
  then show ?case by simp
next
  case (Suc x)
  obtain st1 allPaths pathCosts g' where s1: "iteration cfg d H1 n st = Some (Inr st1)"
      and s2: "aco_loop cfg d H1 n x st1 = Some (Inr st')"
      and t: "tours cfg d H1 n st = Some (Inr (allPaths, pathCosts, g'))"
    using aco_loop_Suc_Inr [OF Suc.prems] by blast
  let ?m = "Min (set pathCosts)"
  have r: "pathCosts \<noteq> []" "bestPathCost st1 = min (bestPathCost st) ?m"
      "bestPath st1 = (if ?m < bestPathCost st
         then snd (hd (filter (\<lambda>p. fst p = ?m) (zip pathCosts allPaths)))
         else bestPath st)"
    using iteration_rule [OF t s1] by simp_all
  have pc: "path_costs d allPaths = Inr pathCosts" "length pathCosts = length allPaths"
    using tours_Inr [OF t] by simp_all
  have "?m \<in> set pathCosts" using r(1) by (intro Min_in) simp_all
  from extreme_pair_cost [OF pc(1) this pc(2)]
  have cost: "calculate_path_cost d (snd (hd (filter (\<lambda>p. fst p = ?m) (zip pathCosts allPaths))))
      = Inr ?m" by blast
  show ?case
  proof (cases "?m < bestPathCost st")
    case True
    then have "calculate_path_cost d (bestPath st1) = Inr (bestPathCost st1)"
      using r(2,3) cost by (simp add: min_def)
    with Suc.IH [OF s2] show ?thesis by auto
  next
    case False
    then have "bestPathCost st1 = bestPathCost st" "bestPath st1 = bestPath st"
      using r(2,3) by (simp_all add: min_def)
    with Suc.IH [OF s2] show ?thesis by auto
  qed
qed

lemma aco_loop_best:
  "aco_loop cfg d H1 n x st = Some (Inr st') \<Longrightarrow>
   \<forall>c\<in>set (run_costs cfg d H1 n x st). bestPathCost st \<le> c \<Longrightarrow>
   bestPathCost st' = bestPathCost st \<and> bestPath st' = bestPath st"
proof (induction x arbitrary: st)
  case 0
  then show ?case by simp
next
  case (Suc x)
  obtain st1 allPaths pathCosts g' where s1: "iteration cfg d H1 n st = Some (Inr st1)"
      and s2: "aco_loop cfg d H1 n x st1 = Some (Inr st')"
      and t: "tours cfg d H1 n st = Some (Inr (allPaths, pathCosts, g'))"
      and rc: "run_costs cfg d H1 n (Suc x) st = pathCosts @ run_costs cfg d H1 n x st1"
    using aco_loop_Suc_Inr [OF Suc.prems(1)] by blast
  let ?m = "Min (set pathCosts)"
  have r: "pathCosts \<noteq> []" "bestPathCost st1 = min (bestPathCost st) ?m"
      "bestPath st1 = (if ?m < bestPathCost st
         then snd (hd (filter (\<lambda>p. fst p = ?m) (zip pathCosts allPaths)))
         else bestPath st)"
    using iteration_rule [OF t s1] by simp_all
  have all: "\<forall>c\<in>set (pathCosts @ run_costs cfg d H1 n x st1). bestPathCost st \<le> c"
    using Suc.prems(2) unfolding rc .
  have "?m \<in> set pathCosts" using r(1) by (intro Min_in) simp_all
  then have "bestPathCost st \<le> ?m" using all by simp
  then have b1: "bestPathCost st1 = bestPathCost st" "bestPath st1 = bestPath st"
    using r(2,3) by (simp_all add: min_def)
  have "\<forall>c\<in>set (run_costs cfg d H1 n x st1). bestPathCost st1 \<le> c"
    using all b1 by simp
  from Suc.IH [OF s2 this] b1 show ?case by simp
qed

text \<open>
  C9. The trackers start at \<open>1000000000\<close> for the best cost and \<open>10\<close> for the worst
  cost, with empty paths. An iteration takes its cheapest tour (the first of them in
  the order of the ants) and its dearest tour (the last of them) and replaces the best
  only when the cheapest costs strictly less, the worst only when the dearest costs
  strictly more. So a run returns the least of \<open>1000000000\<close> and all its costs and the
  greatest of \<open>10\<close> and all its costs; when no tour of the whole run costs more than
  \<open>10\<close> it returns the worst cost \<open>10\<close> and the empty list as the worst path, and
  otherwise a worst path of the worst cost.
\<close>

theorem best_worst_tracker:
  "bestPathCost (initial_state T g) = 1000000000 \<and> bestPath (initial_state T g) = [] \<and>
   worsePathCost (initial_state T g) = 10 \<and> worstPath (initial_state T g) = [] \<and>
   (tours cfg d H1 n st = Some (Inr (allPaths, pathCosts, g')) \<and>
    iteration cfg d H1 n st = Some (Inr st') \<longrightarrow>
      bestPathCost st' = min (bestPathCost st) (Min (set pathCosts)) \<and>
      worsePathCost st' = max (worsePathCost st) (Max (set pathCosts)) \<and>
      bestPath st' =
        (if Min (set pathCosts) < bestPathCost st
         then snd (hd (filter (\<lambda>p. fst p = Min (set pathCosts)) (zip pathCosts allPaths)))
         else bestPath st) \<and>
      worstPath st' =
        (if worsePathCost st < Max (set pathCosts)
         then snd (last (filter (\<lambda>p. fst p = Max (set pathCosts)) (zip pathCosts allPaths)))
         else worstPath st)) \<and>
   (ant_colony_optimisation cfg d T H1 n g = Some (Inr (bCost, bPath, wCost, wPath, a)) \<longrightarrow>
      (let costs = run_costs cfg d H1 n (ITER cfg) (initial_state T g) in
       bCost = Min (insert 1000000000 (set costs)) \<and>
       wCost = Max (insert 10 (set costs)) \<and>
       ((\<forall>c\<in>set costs. c \<le> 10) \<longrightarrow> wCost = 10 \<and> wPath = []) \<and>
       ((\<exists>c\<in>set costs. 10 < c) \<longrightarrow> calculate_path_cost d wPath = Inr wCost) \<and>
       ((\<forall>c\<in>set costs. 1000000000 \<le> c) \<longrightarrow> bCost = 1000000000 \<and> bPath = []) \<and>
       ((\<exists>c\<in>set costs. c < 1000000000) \<longrightarrow> calculate_path_cost d bPath = Inr bCost)))"
proof (intro conjI impI)
  show "bestPathCost (initial_state T g) = 1000000000" "bestPath (initial_state T g) = []"
    "worsePathCost (initial_state T g) = 10" "worstPath (initial_state T g) = []"
    by (simp_all add: initial_state_def)
next
  assume "tours cfg d H1 n st = Some (Inr (allPaths, pathCosts, g')) \<and>
    iteration cfg d H1 n st = Some (Inr st')"
  then have t: "tours cfg d H1 n st = Some (Inr (allPaths, pathCosts, g'))"
    and i: "iteration cfg d H1 n st = Some (Inr st')" by simp_all
  have r: "pathCosts \<noteq> [] \<and>
         bestPathCost st' = min (bestPathCost st) (Min (set pathCosts)) \<and>
         worsePathCost st' = max (worsePathCost st) (Max (set pathCosts)) \<and>
         bestPath st' =
           (if Min (set pathCosts) < bestPathCost st
            then snd (hd (filter (\<lambda>p. fst p = Min (set pathCosts)) (zip pathCosts allPaths)))
            else bestPath st) \<and>
         worstPath st' =
           (if worsePathCost st < Max (set pathCosts)
            then snd (last (filter (\<lambda>p. fst p = Max (set pathCosts)) (zip pathCosts allPaths)))
            else worstPath st)"
    by (rule iteration_rule [OF t i])
  from r show "bestPathCost st' = min (bestPathCost st) (Min (set pathCosts))" by blast
  from r show "worsePathCost st' = max (worsePathCost st) (Max (set pathCosts))" by blast
  from r show "bestPath st' =
           (if Min (set pathCosts) < bestPathCost st
            then snd (hd (filter (\<lambda>p. fst p = Min (set pathCosts)) (zip pathCosts allPaths)))
            else bestPath st)" by blast
  from r show "worstPath st' =
           (if worsePathCost st < Max (set pathCosts)
            then snd (last (filter (\<lambda>p. fst p = Max (set pathCosts)) (zip pathCosts allPaths)))
            else worstPath st)" by blast
next
  assume run: "ant_colony_optimisation cfg d T H1 n g = Some (Inr (bCost, bPath, wCost, wPath, a))"
  let ?st0 = "initial_state T g"
  let ?costs = "run_costs cfg d H1 n (ITER cfg) ?st0"
  obtain st where st: "aco_loop cfg d H1 n (ITER cfg) ?st0 = Some (Inr st)"
      and res: "bCost = bestPathCost st" "bPath = bestPath st"
        "wCost = worsePathCost st" "wPath = worstPath st"
    using ant_colony_optimisation_Inr [OF run] by blast
  have init: "bestPathCost ?st0 = 1000000000" "bestPath ?st0 = []"
      "worsePathCost ?st0 = 10" "worstPath ?st0 = []"
    by (simp_all add: initial_state_def)
  have ext: "bCost = Min (insert 1000000000 (set ?costs))"
      "wCost = Max (insert 10 (set ?costs))"
    using aco_loop_extreme_costs [OF st] res init by simp_all
  have w_keep: "wCost = 10 \<and> wPath = []" if "\<forall>c\<in>set ?costs. c \<le> 10"
    using aco_loop_worst [OF st] that res init by simp
  have b_keep: "bCost = 1000000000 \<and> bPath = []" if "\<forall>c\<in>set ?costs. 1000000000 \<le> c"
    using aco_loop_best [OF st] that res init by simp
  have w_new: "calculate_path_cost d wPath = Inr wCost" if "\<exists>c\<in>set ?costs. 10 < c"
  proof -
    from that obtain c where c: "c \<in> set ?costs" "10 < c" by blast
    have "c \<le> Max (insert 10 (set ?costs))" using c(1) by (intro Max_ge) simp_all
    with c(2) ext(2) have "wCost \<noteq> 10" by simp
    with aco_loop_worst_path [OF st, of ] res init show ?thesis by auto
  qed
  have b_new: "calculate_path_cost d bPath = Inr bCost" if "\<exists>c\<in>set ?costs. c < 1000000000"
  proof -
    from that obtain c where c: "c \<in> set ?costs" "c < 1000000000" by blast
    have "Min (insert 1000000000 (set ?costs)) \<le> c" using c(1) by (intro Min_le) simp_all
    with c(2) ext(1) have "bCost \<noteq> 1000000000" by simp
    with aco_loop_best_path [OF st] res init show ?thesis by auto
  qed
  show "let costs = ?costs in
       bCost = Min (insert 1000000000 (set costs)) \<and>
       wCost = Max (insert 10 (set costs)) \<and>
       ((\<forall>c\<in>set costs. c \<le> 10) \<longrightarrow> wCost = 10 \<and> wPath = []) \<and>
       ((\<exists>c\<in>set costs. 10 < c) \<longrightarrow> calculate_path_cost d wPath = Inr wCost) \<and>
       ((\<forall>c\<in>set costs. 1000000000 \<le> c) \<longrightarrow> bCost = 1000000000 \<and> bPath = []) \<and>
       ((\<exists>c\<in>set costs. c < 1000000000) \<longrightarrow> calculate_path_cost d bPath = Inr bCost)"
    unfolding Let_def using ext w_keep b_keep w_new b_new by blast
qed

lemma tie_run:
  "ant_colony_optimisation (source_config\<lparr>K := 1, ITER := 2\<rparr>) [[0, 5], [5, 0]]
     [[Fin 0, Fin 1], [Fin 1, Fin 0]] [[Fin 0, Fin 1], [Fin 1, Fin 0]] 2
     \<lparr>starts = [0, 1], rands = [1 / 2, 1 / 2]\<rparr> = Some (Inr (10, [0, 1, 0], 10, [], 40))"
  by (simp add: ant_colony_optimisation_def initial_state_def iteration_def tours_def ant_def
      transition_def desirability_def zero_columns_def np_sum_def calculate_path_cost_def
      update_pheremone_def evaporate_def store2_def track_extremes_def source_config_def
      py_round_def Let_def numeral_2_eq_2 numeral_3_eq_3 upt_rec)

lemma tie_run_costs:
  "run_costs (source_config\<lparr>K := 1, ITER := 2\<rparr>) [[0, 5], [5, 0]]
     [[Fin 0, Fin 1], [Fin 1, Fin 0]] 2 2
     (initial_state [[Fin 0, Fin 1], [Fin 1, Fin 0]] \<lparr>starts = [0, 1], rands = [1 / 2, 1 / 2]\<rparr>)
   = [10, 10]"
  by (simp add: iteration_costs_def initial_state_def iteration_def tours_def ant_def
      transition_def desirability_def zero_columns_def np_sum_def calculate_path_cost_def
      update_pheremone_def evaporate_def store2_def track_extremes_def source_config_def
      py_round_def Let_def numeral_2_eq_2 numeral_3_eq_3 upt_rec)

lemma two_ants_tours:
  "tours (source_config\<lparr>K := 2, ITER := 1\<rparr>) [[0, 5], [6, 0]] [[Fin 0, Fin 1], [Fin 1, Fin 0]] 2
     (initial_state [[Fin 0, Fin 1], [Fin 1, Fin 0]] \<lparr>starts = [0, 1], rands = [1 / 2, 1 / 2]\<rparr>)
   = Some (Inr ([[0, 1, 0], [1, 0, 1]], [11, 11], \<lparr>starts = [], rands = []\<rparr>))"
  by (simp add: initial_state_def tours_def ant_def
      transition_def desirability_def zero_columns_def np_sum_def calculate_path_cost_def
      source_config_def Let_def numeral_2_eq_2 numeral_3_eq_3 upt_rec)

lemma two_ants_run:
  "ant_colony_optimisation (source_config\<lparr>K := 2, ITER := 1\<rparr>) [[0, 5], [6, 0]]
     [[Fin 0, Fin 1], [Fin 1, Fin 0]] [[Fin 0, Fin 1], [Fin 1, Fin 0]] 2
     \<lparr>starts = [0, 1], rands = [1 / 2, 1 / 2]\<rparr>
   = Some (Inr (11, [0, 1, 0], 11, [1, 0, 1], 11))"
  by (simp add: ant_colony_optimisation_def initial_state_def iteration_def tours_def ant_def
      transition_def desirability_def zero_columns_def np_sum_def calculate_path_cost_def
      update_pheremone_def evaporate_def store2_def track_extremes_def source_config_def
      py_round_def Let_def numeral_2_eq_2 numeral_3_eq_3 upt_rec)

theorem best_worst_tracker_witness:
  "ant_colony_optimisation (source_config\<lparr>K := 1, ITER := 2\<rparr>) [[0, 5], [5, 0]]
     [[Fin 0, Fin 1], [Fin 1, Fin 0]] [[Fin 0, Fin 1], [Fin 1, Fin 0]] 2
     \<lparr>starts = [0, 1], rands = [1 / 2, 1 / 2]\<rparr> = Some (Inr (10, [0, 1, 0], 10, [], 40)) \<and>
   run_costs (source_config\<lparr>K := 1, ITER := 2\<rparr>) [[0, 5], [5, 0]]
     [[Fin 0, Fin 1], [Fin 1, Fin 0]] 2 2
     (initial_state [[Fin 0, Fin 1], [Fin 1, Fin 0]] \<lparr>starts = [0, 1], rands = [1 / 2, 1 / 2]\<rparr>)
     = [10, 10] \<and>
   (10 :: int) = Max (insert 10 (set [10, 10])) \<and>
   tours (source_config\<lparr>K := 2, ITER := 1\<rparr>) [[0, 5], [6, 0]] [[Fin 0, Fin 1], [Fin 1, Fin 0]] 2
     (initial_state [[Fin 0, Fin 1], [Fin 1, Fin 0]] \<lparr>starts = [0, 1], rands = [1 / 2, 1 / 2]\<rparr>)
     = Some (Inr ([[0, 1, 0], [1, 0, 1]], [11, 11], \<lparr>starts = [], rands = []\<rparr>)) \<and>
   (\<exists>st'. iteration (source_config\<lparr>K := 2, ITER := 1\<rparr>) [[0, 5], [6, 0]]
            [[Fin 0, Fin 1], [Fin 1, Fin 0]] 2
            (initial_state [[Fin 0, Fin 1], [Fin 1, Fin 0]]
               \<lparr>starts = [0, 1], rands = [1 / 2, 1 / 2]\<rparr>) = Some (Inr st') \<and>
          bestPathCost st' = 11 \<and> bestPath st' = [0, 1, 0] \<and>
          worsePathCost st' = 11 \<and> worstPath st' = [1, 0, 1])"
proof -
  let ?T = "[[Fin 0, Fin 1], [Fin 1, Fin 0]]"
  let ?g = "\<lparr>starts = [0, 1], rands = [1 / 2, 1 / 2]\<rparr>"
  let ?cfgA = "source_config\<lparr>K := 1, ITER := 2\<rparr>"
  let ?cfgB = "source_config\<lparr>K := 2, ITER := 1\<rparr>"
  let ?dA = "[[0, 5], [5, 0 :: int]]"
  let ?dB = "[[0, 5], [6, 0 :: int]]"
  have iterA: "ITER ?cfgA = 2" and iterB: "ITER ?cfgB = Suc 0" by simp_all
  \<comment> \<open>the run whose tours all cost exactly 10\<close>
  have "let costs = run_costs ?cfgA ?dA ?T 2 (ITER ?cfgA) (initial_state ?T ?g) in
       10 = Min (insert 1000000000 (set costs)) \<and>
       10 = Max (insert 10 (set costs)) \<and>
       ((\<forall>c\<in>set costs. c \<le> 10) \<longrightarrow> (10 :: int) = 10 \<and> ([] :: nat list) = []) \<and>
       ((\<exists>c\<in>set costs. 10 < c) \<longrightarrow> calculate_path_cost ?dA [] = Inr 10) \<and>
       ((\<forall>c\<in>set costs. 1000000000 \<le> c) \<longrightarrow> (10 :: int) = 1000000000 \<and> [0, 1, 0 :: nat] = []) \<and>
       ((\<exists>c\<in>set costs. c < 1000000000) \<longrightarrow> calculate_path_cost ?dA [0, 1, 0] = Inr 10)"
    by (rule best_worst_tracker [where cfg = ?cfgA and d = ?dA and T = ?T and ?H1.0 = ?T
          and n = 2 and g = ?g and bCost = 10 and bPath = "[0, 1, 0]" and wCost = 10
          and wPath = "[]" and a = 40,
          THEN conjunct2, THEN conjunct2, THEN conjunct2, THEN conjunct2, THEN conjunct2,
          THEN mp, OF tie_run])
  then have mA: "(10 :: int) = Max (insert 10 (set [10, 10]))"
    unfolding iterA tie_run_costs Let_def by blast
  \<comment> \<open>the iteration of two ants whose tours both cost 11\<close>
  obtain st where loop: "aco_loop ?cfgB ?dB ?T 2 (ITER ?cfgB) (initial_state ?T ?g) = Some (Inr st)"
    using ant_colony_optimisation_Inr [OF two_ants_run] by blast
  then have it: "iteration ?cfgB ?dB ?T 2 (initial_state ?T ?g) = Some (Inr st)"
    unfolding iterB by (auto split: option.splits sum.splits)
  let ?cs = "[11, 11 :: int]"
  let ?ps = "[[0, 1, 0], [1, 0, 1 :: nat]]"
  have rule: "bestPathCost st = min (bestPathCost (initial_state ?T ?g)) (Min (set ?cs)) \<and>
      worsePathCost st = max (worsePathCost (initial_state ?T ?g)) (Max (set ?cs)) \<and>
      bestPath st =
        (if Min (set ?cs) < bestPathCost (initial_state ?T ?g)
         then snd (hd (filter (\<lambda>p. fst p = Min (set ?cs)) (zip ?cs ?ps)))
         else bestPath (initial_state ?T ?g)) \<and>
      worstPath st =
        (if worsePathCost (initial_state ?T ?g) < Max (set ?cs)
         then snd (last (filter (\<lambda>p. fst p = Max (set ?cs)) (zip ?cs ?ps)))
         else worstPath (initial_state ?T ?g))"
    by (rule best_worst_tracker [where cfg = ?cfgB and d = ?dB and ?H1.0 = ?T and n = 2
          and st = "initial_state ?T ?g" and allPaths = ?ps
          and pathCosts = ?cs and g' = "\<lparr>starts = [], rands = []\<rparr>" and st' = st,
          THEN conjunct2, THEN conjunct2, THEN conjunct2, THEN conjunct2, THEN conjunct1,
          THEN mp, OF conjI, OF two_ants_tours it])
  then have "bestPathCost st = 11 \<and> bestPath st = [0, 1, 0] \<and>
      worsePathCost st = 11 \<and> worstPath st = [1, 0, 1]"
    by (simp add: initial_state_def)
  with it have "\<exists>st'. iteration ?cfgB ?dB ?T 2 (initial_state ?T ?g) = Some (Inr st') \<and>
      bestPathCost st' = 11 \<and> bestPath st' = [0, 1, 0] \<and>
      worsePathCost st' = 11 \<and> worstPath st' = [1, 0, 1]"
    by blast
  with tie_run tie_run_costs mA two_ants_tours show ?thesis by blast
qed

end
